theory Spec2Isabelle
  imports Complex_Main "HOL-Library.Sublist"
begin

section \<open>Errors and results\<close>

text \<open>
  The generator \<^verbatim>\<open>c_gen_adv.py\<close> raises Python exceptions in a few places (a missing
  dictionary key, an invalid argument of a library call). A computation that may raise
  returns \<open>error + 'a\<close>, with \<open>Inl\<close> for the exception; \<open>bind_e\<close> sequences two such
  computations and stops at the first exception.
\<close>

datatype error = KeyError string | ValueError string | IndexError string

definition bind_e :: "error + 'a \<Rightarrow> ('a \<Rightarrow> error + 'b) \<Rightarrow> error + 'b" where
  "bind_e m f = (case m of Inl e \<Rightarrow> Inl e | Inr x \<Rightarrow> f x)"

section \<open>Strings\<close>

definition LETTERS :: string where
  "LETTERS = ''abcdefghijklmnopqrstuvwxyz''"

definition UPPERS :: string where
  "UPPERS = ''ABCDEFGHIJKLMNOPQRSTUVWXYZ''"

definition BASE_CTYPES :: "string list" where
  "BASE_CTYPES = [''int'', ''long'', ''float'', ''double'', ''char'']"

text \<open>\<^verbatim>\<open>str.upper\<close>, \<^verbatim>\<open>str.lower\<close> and \<^verbatim>\<open>str.capitalize\<close> on ASCII text.\<close>

definition upper_char :: "char \<Rightarrow> char" where
  "upper_char c = (case map_of (zip LETTERS UPPERS) c of None \<Rightarrow> c | Some u \<Rightarrow> u)"

definition lower_char :: "char \<Rightarrow> char" where
  "lower_char c = (case map_of (zip UPPERS LETTERS) c of None \<Rightarrow> c | Some l \<Rightarrow> l)"

definition upper :: "string \<Rightarrow> string" where
  "upper s = map upper_char s"

definition capitalize :: "string \<Rightarrow> string" where
  "capitalize s = (case s of [] \<Rightarrow> [] | c # cs \<Rightarrow> upper_char c # map lower_char cs)"

text \<open>\<^verbatim>\<open>sep.join(xs)\<close>, \<^verbatim>\<open>s.split(c)\<close>, \<^verbatim>\<open>s.count("\n")\<close>, \<^verbatim>\<open>s.endswith(t)\<close>
  and \<^verbatim>\<open>t in s\<close>.\<close>

fun join :: "string \<Rightarrow> string list \<Rightarrow> string" where
  "join sep [] = []"
| "join sep [x] = x"
| "join sep (x # y # ys) = x @ sep @ join sep (y # ys)"

fun split_on :: "char \<Rightarrow> string \<Rightarrow> string list" where
  "split_on c [] = [[]]"
| "split_on c (x # xs) =
     (if x = c then [] # split_on c xs
      else (case split_on c xs of [] \<Rightarrow> [[x]] | p # ps \<Rightarrow> (x # p) # ps))"

definition count_nl :: "string \<Rightarrow> nat" where
  "count_nl s = length (filter (\<lambda>c. c = CHR 0x0A) s)"

definition endswith :: "string \<Rightarrow> string \<Rightarrow> bool" where
  "endswith s t = suffix t s"

fun contains :: "string \<Rightarrow> string \<Rightarrow> bool" where
  "contains t [] = (t = [])"
| "contains t (c # cs) = (prefix t (c # cs) \<or> contains t cs)"

text \<open>The decimal text of a non-negative integer, as an f-string renders it.\<close>

definition digit :: "nat \<Rightarrow> char" where
  "digit d = ''0123456789'' ! (d mod 10)"

fun str_nat :: "nat \<Rightarrow> string" where
  "str_nat n = (if n < 10 then [digit n] else str_nat (n div 10) @ [digit n])"

declare str_nat.simps [simp del]

section \<open>The random source\<close>

text \<open>
  Every random choice of the generator goes through one \<^verbatim>\<open>random.Random\<close> object. The
  Mersenne Twister behind it is library code, so the model takes it as a parameter: the
  object is a stream \<open>src\<close> of raw draws together with the position \<open>pos\<close> of the next
  one, and every method of the object consumes raw draws from the stream. The methods
  below keep the library's argument checks and ranges: \<^verbatim>\<open>choice\<close> raises on an empty
  sequence and returns an element of it, \<^verbatim>\<open>randint(a, b)\<close> returns an integer of
  \<open>[a, b]\<close>, \<^verbatim>\<open>random()\<close> a multiple of \<open>2\<^sup>-\<^sup>5\<^sup>3\<close> in \<open>[0, 1)\<close>, \<^verbatim>\<open>sample\<close> draws
  without replacement from a pool, and \<^verbatim>\<open>choices\<close> bisects the running sums of
  the weights.
\<close>

record prng =
  src :: "nat \<Rightarrow> nat"
  pos :: nat

definition next_raw :: "prng \<Rightarrow> nat \<times> prng" where
  "next_raw r = (src r (pos r), r\<lparr>pos := Suc (pos r)\<rparr>)"

definition randbelow :: "prng \<Rightarrow> nat \<Rightarrow> nat \<times> prng" where
  "randbelow r n = (case next_raw r of (x, r') \<Rightarrow> (x mod n, r'))"

definition rnd_choice :: "prng \<Rightarrow> 'a list \<Rightarrow> error + ('a \<times> prng)" where
  "rnd_choice r xs =
     (if xs = [] then Inl (IndexError ''Cannot choose from an empty sequence'')
      else (case randbelow r (length xs) of (i, r') \<Rightarrow> Inr (xs ! i, r')))"

definition rnd_randint :: "prng \<Rightarrow> nat \<Rightarrow> nat \<Rightarrow> error + (nat \<times> prng)" where
  "rnd_randint r a b =
     (if b < a then Inl (ValueError ''empty range for randrange()'')
      else (case randbelow r (b - a + 1) of (i, r') \<Rightarrow> Inr (a + i, r')))"

definition rnd_random :: "prng \<Rightarrow> rat \<times> prng" where
  "rnd_random r = (case next_raw r of (x, r') \<Rightarrow> (of_nat (x mod 2 ^ 53) / 2 ^ 53, r'))"

text \<open>
  \<^verbatim>\<open>f"{rng.uniform(0, 100):.2f}"\<close>: a decimal with two fractional digits between
  \<open>0.00\<close> and \<open>100.00\<close>. The floating-point product and its rounding are the
  library's; the stream supplies the number of hundredths.
\<close>

definition decimal_2f :: "nat \<Rightarrow> string" where
  "decimal_2f h = str_nat (h div 100) @ ''.'' @ [digit (h mod 100 div 10), digit (h mod 10)]"

definition rnd_uniform_2f :: "prng \<Rightarrow> string \<times> prng" where
  "rnd_uniform_2f r = (case randbelow r 10001 of (h, r') \<Rightarrow> (decimal_2f h, r'))"

text \<open>\<^verbatim>\<open>random.sample\<close> on a short list: the pool algorithm, which moves the last
  unselected element into the vacancy.\<close>

fun sample_pool :: "prng \<Rightarrow> 'a list \<Rightarrow> nat \<Rightarrow> 'a list \<times> prng" where
  "sample_pool r pool 0 = ([], r)"
| "sample_pool r pool (Suc k) =
     (case randbelow r (length pool) of (j, r1) \<Rightarrow>
        (case sample_pool r1 (butlast (pool[j := last pool])) k of (rest, r2) \<Rightarrow>
           (pool ! j # rest, r2)))"

definition rnd_sample :: "prng \<Rightarrow> 'a list \<Rightarrow> nat \<Rightarrow> error + ('a list \<times> prng)" where
  "rnd_sample r population k =
     (if length population < k then Inl (ValueError ''Sample larger than population or is negative'')
      else Inr (sample_pool r population k))"

text \<open>\<^verbatim>\<open>itertools.accumulate\<close> and \<^verbatim>\<open>bisect.bisect_right(a, x, lo, hi)\<close>.\<close>

fun accumulate_from :: "rat \<Rightarrow> rat list \<Rightarrow> rat list" where
  "accumulate_from acc [] = []"
| "accumulate_from acc (w # ws) = (acc + w) # accumulate_from (acc + w) ws"

definition accumulate :: "rat list \<Rightarrow> rat list" where
  "accumulate ws = accumulate_from 0 ws"

function bisect :: "rat list \<Rightarrow> rat \<Rightarrow> nat \<Rightarrow> nat \<Rightarrow> nat" where
  "bisect a x lo hi =
     (if lo < hi then
        (if x < a ! ((lo + hi) div 2) then bisect a x lo ((lo + hi) div 2)
         else bisect a x ((lo + hi) div 2 + 1) hi)
      else lo)"
  by pat_completeness auto
termination
  by (relation "measure (\<lambda>(a, x, lo, hi). hi - lo)") auto

declare bisect.simps [simp del]

text \<open>\<^verbatim>\<open>rng.choices(population, weights=weights)[0]\<close>.\<close>

definition rnd_choices :: "prng \<Rightarrow> 'a list \<Rightarrow> rat list \<Rightarrow> error + ('a \<times> prng)" where
  "rnd_choices r population weights =
     (let cum = accumulate weights in
      if length cum \<noteq> length population
      then Inl (ValueError ''The number of weights does not match the population'')
      else if cum = [] then Inl (IndexError ''list index out of range'')
      else if last cum \<le> 0 then Inl (ValueError ''Total of weights must be greater than zero'')
      else (case rnd_random r of (u, r') \<Rightarrow>
              Inr (population ! bisect cum (u * last cum) 0 (length population - 1), r')))"

section \<open>Configuration, style table and generation state\<close>

record CConfig =
  loc :: int
  seed :: "int option"
  cfg_style :: string
  check :: bool
  weights :: "(string \<times> rat) list"

text \<open>The default weight mapping of \<^verbatim>\<open>CConfig\<close>, a dictionary in insertion order.\<close>

definition default_weights :: "(string \<times> rat) list" where
  "default_weights =
     [(''comment'', 7 / 100), (''include'', 7 / 100), (''define_macro'', 4 / 100),
      (''define_macro_f'', 4 / 100), (''typedef'', 8 / 100), (''enum'', 6 / 100),
      (''union'', 5 / 100), (''struct'', 7 / 100), (''var_decl'', 12 / 100),
      (''func_decl'', 8 / 100), (''func_def'', 8 / 100), (''switch'', 5 / 100),
      (''main'', 7 / 100), (''conditional'', 6 / 100), (''loop'', 6 / 100)]"

record style_entry =
  indent :: string
  brace_same :: bool

definition STYLE_LIST :: "(string \<times> style_entry) list" where
  "STYLE_LIST =
     [(''kr'', \<lparr>indent = ''    '', brace_same = True\<rparr>),
      (''allman'', \<lparr>indent = ''    '', brace_same = False\<rparr>),
      (''gnu'', \<lparr>indent = ''  '', brace_same = True\<rparr>)]"

definition STYLE_TABLE :: "string \<Rightarrow> error + style_entry" where
  "STYLE_TABLE name =
     (case map_of STYLE_LIST name of None \<Rightarrow> Inl (KeyError name) | Some e \<Rightarrow> Inr e)"

text \<open>
  What a run takes from outside the program. \<open>twister\<close> is the stream of
  \<^verbatim>\<open>random.Random(seed)\<close> for an integer seed, \<open>entropy\<close> the stream of an unseeded
  generator. The sets of the generation state hold strings and tuples of strings; the
  order in which \<^verbatim>\<open>list(a_set)\<close> enumerates them follows their hashes, which CPython
  salts per process. \<open>str_slot\<close> and \<open>sig_slot\<close> give that order: elements are listed by
  increasing slot, ties in insertion order.
\<close>

record env =
  twister :: "int \<Rightarrow> nat \<Rightarrow> nat"
  entropy :: "nat \<Rightarrow> nat"
  str_slot :: "string \<Rightarrow> nat"
  sig_slot :: "string \<times> string \<times> string \<Rightarrow> nat"

definition Random :: "env \<Rightarrow> int option \<Rightarrow> prng" where
  "Random e sd =
     (case sd of None \<Rightarrow> \<lparr>src = entropy e, pos = 0\<rparr>
      | Some n \<Rightarrow> \<lparr>src = twister e n, pos = 0\<rparr>)"

text \<open>A Python set is kept as the list of its distinct elements in insertion order.\<close>

definition set_add :: "'a \<Rightarrow> 'a list \<Rightarrow> 'a list" where
  "set_add x xs = (if x \<in> set xs then xs else xs @ [x])"

definition set_to_list :: "('a \<Rightarrow> nat) \<Rightarrow> 'a list \<Rightarrow> 'a list" where
  "set_to_list slot xs = sort_key slot xs"

record state =
  rng :: prng
  style :: string
  typedefs :: "string list"
  structs :: "string list"
  funcs :: "(string \<times> string \<times> string) list"
  headers :: "string list"
  main_written :: bool

section \<open>Helpers\<close>

fun fresh_name :: "prng \<Rightarrow> nat \<Rightarrow> error + (string \<times> prng)" where
  "fresh_name r 0 = Inr ([], r)"
| "fresh_name r (Suc n) =
     bind_e (rnd_choice r LETTERS) (\<lambda>(c, r1).
     bind_e (fresh_name r1 n) (\<lambda>(cs, r2).
     Inr (c # cs, r2)))"

definition choose_ctype :: "prng \<Rightarrow> string list \<Rightarrow> error + (string \<times> prng)" where
  "choose_ctype r extra =
     bind_e (rnd_choice r (BASE_CTYPES @ extra)) (\<lambda>(base, r1).
     (case rnd_random r1 of (u, r2) \<Rightarrow>
        if u < 1 / 4 \<and> \<not> endswith base ''*'' then Inr (base @ ''*'', r2)
        else Inr (base, r2)))"

definition random_value :: "prng \<Rightarrow> string \<Rightarrow> error + (string \<times> prng)" where
  "random_value r ctype =
     (if endswith ctype ''*'' then Inr (''NULL'', r)
      else if ctype = ''char'' then
        bind_e (rnd_choice r LETTERS) (\<lambda>(c, r1). Inr ([CHR 0x27, c, CHR 0x27], r1))
      else if ctype \<in> {''int'', ''long''} then
        bind_e (rnd_randint r 0 100) (\<lambda>(v, r1).
        Inr (str_nat v @ (if ctype = ''long'' then ''L'' else []), r1))
      else (case rnd_uniform_2f r of (txt, r1) \<Rightarrow> Inr (txt, r1)))"

definition brace_line :: "state \<Rightarrow> string \<Rightarrow> error + string" where
  "brace_line st header =
     bind_e (STYLE_TABLE (style st)) (\<lambda>e.
     if brace_same e then Inr (header @ '' {\<newline>'')
     else Inr (header @ ''\<newline>{\<newline>''))"

definition style_indent :: "state \<Rightarrow> error + string" where
  "style_indent st = bind_e (STYLE_TABLE (style st)) (\<lambda>e. Inr (indent e))"

section \<open>Generators\<close>

definition gen_comment :: "state \<Rightarrow> error + (string \<times> state)" where
  "gen_comment st =
     bind_e (rnd_choice (rng st) [''// TODO'', ''// FIXME'', ''// NOTE'', ''// HACK'']) (\<lambda>(tag, r1).
     bind_e (rnd_randint r1 3 8) (\<lambda>(n, r2).
     bind_e (fresh_name r2 n) (\<lambda>(nm, r3).
     Inr (tag @ '': '' @ nm @ ''\<newline>'', st\<lparr>rng := r3\<rparr>))))"

definition HDRS :: "string list" where
  "HDRS = [''<stdio.h>'', ''<stdlib.h>'', ''<string.h>'', ''<math.h>'', ''<stddef.h>'']"

definition gen_include :: "state \<Rightarrow> error + (string \<times> state)" where
  "gen_include st =
     (let available = filter (\<lambda>h. h \<notin> set (headers st)) HDRS;
          cleared = (if available = [] then [] else headers st);
          available = (if available = [] then HDRS else available)
      in bind_e (rnd_choice (rng st) available) (\<lambda>(hdr, r1).
         Inr (''#include '' @ hdr @ ''\<newline>'',
              st\<lparr>rng := r1, headers := set_add hdr cleared\<rparr>)))"

definition gen_define_macro :: "state \<Rightarrow> error + (string \<times> state)" where
  "gen_define_macro st =
     bind_e (fresh_name (rng st) 6) (\<lambda>(nm, r1).
     bind_e (rnd_randint r1 1 100) (\<lambda>(v, r2).
     Inr (''#define '' @ upper nm @ '' '' @ str_nat v @ ''\<newline>'', st\<lparr>rng := r2\<rparr>)))"

definition gen_define_macro_func :: "state \<Rightarrow> error + (string \<times> state)" where
  "gen_define_macro_func st =
     bind_e (fresh_name (rng st) 6) (\<lambda>(nm, r1).
     bind_e (fresh_name r1 1) (\<lambda>(param, r2).
     Inr (''#define '' @ upper nm @ ''('' @ param @ '') (('' @ param @ '') * ('' @ param
            @ ''))\<newline>'', st\<lparr>rng := r2\<rparr>)))"

definition gen_typedef :: "state \<Rightarrow> error + (string \<times> state)" where
  "gen_typedef st =
     bind_e (rnd_randint (rng st) 3 6) (\<lambda>(n, r1).
     bind_e (fresh_name r1 n) (\<lambda>(alias, r2).
     bind_e (rnd_choice r2 BASE_CTYPES) (\<lambda>(base, r3).
     Inr (''typedef '' @ base @ '' '' @ alias @ '';\<newline>'',
          st\<lparr>rng := r3, typedefs := set_add alias (typedefs st)\<rparr>))))"

definition gen_enum :: "state \<Rightarrow> error + (string \<times> state)" where
  "gen_enum st =
     bind_e (rnd_randint (rng st) 3 6) (\<lambda>(n, r1).
     bind_e (fresh_name r1 n) (\<lambda>(nm, r2).
     bind_e (rnd_randint r2 2 4) (\<lambda>(k, r3).
     (let name = capitalize nm;
          items = join '', '' (map (\<lambda>i. upper name @ ''_'' @ str_nat i) [0..<k])
      in Inr (''typedef enum { '' @ items @ '' } '' @ name @ '';\<newline>'',
              st\<lparr>rng := r3, typedefs := set_add name (typedefs st)\<rparr>)))))"

fun union_fields :: "prng \<Rightarrow> string list \<Rightarrow> error + (string list \<times> prng)" where
  "union_fields r [] = Inr ([], r)"
| "union_fields r (t # ts) =
     bind_e (fresh_name r 6) (\<lambda>(nm, r1).
     bind_e (union_fields r1 ts) (\<lambda>(rest, r2).
     Inr ((''    '' @ t @ '' '' @ nm @ '';'') # rest, r2)))"

definition gen_union :: "state \<Rightarrow> error + (string \<times> state)" where
  "gen_union st =
     bind_e (rnd_randint (rng st) 3 6) (\<lambda>(n, r1).
     bind_e (fresh_name r1 n) (\<lambda>(nm, r2).
     bind_e (rnd_sample r2 BASE_CTYPES 2) (\<lambda>(ts, r3).
     bind_e (union_fields r3 ts) (\<lambda>(fields, r4).
     (let name = capitalize nm
      in Inr (''typedef union '' @ name @ '' {\<newline>'' @ join ''\<newline>'' fields
                @ ''\<newline>} '' @ name @ '';\<newline>'',
              st\<lparr>rng := r4, structs := set_add name (structs st)\<rparr>))))))"

fun struct_lines :: "prng \<Rightarrow> nat \<Rightarrow> error + (string list \<times> prng)" where
  "struct_lines r 0 = Inr ([], r)"
| "struct_lines r (Suc k) =
     bind_e (rnd_choice r BASE_CTYPES) (\<lambda>(t, r1).
     bind_e (rnd_randint r1 3 6) (\<lambda>(n, r2).
     bind_e (fresh_name r2 n) (\<lambda>(nm, r3).
     bind_e (struct_lines r3 k) (\<lambda>(rest, r4).
     Inr ((''    '' @ t @ '' '' @ nm @ '';'') # rest, r4)))))"

definition gen_struct :: "state \<Rightarrow> error + (string \<times> state)" where
  "gen_struct st =
     bind_e (rnd_randint (rng st) 3 6) (\<lambda>(n, r1).
     bind_e (fresh_name r1 n) (\<lambda>(nm, r2).
     bind_e (rnd_randint r2 1 3) (\<lambda>(k, r3).
     bind_e (struct_lines r3 k) (\<lambda>(lines, r4).
     (let name = capitalize nm
      in Inr (''typedef struct '' @ name @ '' {\<newline>'' @ join ''\<newline>'' lines
                @ ''\<newline>} '' @ name @ '';\<newline>'',
              st\<lparr>rng := r4, structs := set_add name (structs st)\<rparr>))))))"

definition var_init :: "prng \<Rightarrow> string \<Rightarrow> error + (string \<times> prng)" where
  "var_init r ctype =
     (if endswith ctype ''*'' then Inr ([], r)
      else (case rnd_random r of (u, r1) \<Rightarrow>
              if u < 1 / 2 then
                bind_e (rnd_choice r1 BASE_CTYPES) (\<lambda>(t, r2).
                bind_e (random_value r2 t) (\<lambda>(v, r3). Inr ('' = '' @ v, r3)))
              else Inr ([], r1)))"

definition gen_var_decl :: "env \<Rightarrow> state \<Rightarrow> error + (string \<times> state)" where
  "gen_var_decl e st =
     bind_e (choose_ctype (rng st) (set_to_list (str_slot e) (typedefs st))) (\<lambda>(ctype, r1).
     bind_e (fresh_name r1 6) (\<lambda>(name, r2).
     bind_e (var_init r2 ctype) (\<lambda>(init, r3).
     Inr (ctype @ '' '' @ name @ init @ '';\<newline>'', st\<lparr>rng := r3\<rparr>))))"

fun func_params :: "prng \<Rightarrow> string list \<Rightarrow> nat \<Rightarrow> error + (string list \<times> prng)" where
  "func_params r extra 0 = Inr ([], r)"
| "func_params r extra (Suc k) =
     bind_e (choose_ctype r extra) (\<lambda>(t, r1).
     bind_e (fresh_name r1 6) (\<lambda>(nm, r2).
     bind_e (func_params r2 extra k) (\<lambda>(rest, r3).
     Inr ((t @ '' '' @ nm) # rest, r3))))"

definition gen_func_decl :: "env \<Rightarrow> state \<Rightarrow> error + (string \<times> state)" where
  "gen_func_decl e st =
     bind_e (choose_ctype (rng st) (set_to_list (str_slot e) (typedefs st))) (\<lambda>(ret, r1).
     bind_e (fresh_name r1 6) (\<lambda>(name, r2).
     bind_e (rnd_randint r2 0 2) (\<lambda>(k, r3).
     bind_e (func_params r3 (set_to_list (str_slot e) (typedefs st)) k) (\<lambda>(params, r4).
     (let params_str = (if params \<noteq> [] then join '', '' params else ''void'')
      in Inr (ret @ '' '' @ name @ ''('' @ params_str @ '');\<newline>'',
              st\<lparr>rng := r4, funcs := set_add (ret, name, params_str) (funcs st)\<rparr>))))))"

definition func_body :: "prng \<Rightarrow> string \<Rightarrow> string \<Rightarrow> error + (string \<times> prng)" where
  "func_body r ind ret =
     (if ret = ''void'' then Inr (ind @ ''// function body\<newline>'', r)
      else bind_e (rnd_choice r BASE_CTYPES) (\<lambda>(t, r1).
           bind_e (random_value r1 t) (\<lambda>(v, r2).
           Inr (ind @ ''return '' @ v @ '';\<newline>'', r2))))"

definition gen_func_def :: "env \<Rightarrow> state \<Rightarrow> error + (string \<times> state)" where
  "gen_func_def e st =
     (if funcs st = [] then Inr ([], st)
      else
        bind_e (rnd_choice (rng st) (set_to_list (sig_slot e) (funcs st))) (\<lambda>((ret, name, params_str), r1).
        bind_e (style_indent st) (\<lambda>ind.
        bind_e (func_body r1 ind ret) (\<lambda>(body, r2).
        bind_e (brace_line st (ret @ '' '' @ name @ ''('' @ params_str @ '')'')) (\<lambda>hd.
        Inr (hd @ body @ ''}\<newline>\<newline>'', st\<lparr>rng := r2\<rparr>))))))"

definition switch_case :: "string \<Rightarrow> string \<Rightarrow> nat \<Rightarrow> string" where
  "switch_case ind var i =
     ind @ ''case '' @ str_nat i @ '':\<newline>'' @ ind @ ind @ var @ '' += '' @ str_nat i
       @ '';\<newline>'' @ ind @ ind @ ''break;\<newline>''"

definition gen_switch :: "state \<Rightarrow> error + (string \<times> state)" where
  "gen_switch st =
     bind_e (fresh_name (rng st) 6) (\<lambda>(var, r1).
     bind_e (style_indent st) (\<lambda>ind.
     bind_e (rnd_randint r1 2 4) (\<lambda>(k, r2).
     bind_e (brace_line st (''switch ('' @ var @ '')'')) (\<lambda>hd.
     Inr (hd @ concat (map (switch_case ind var) [0..<k])
            @ ind @ ''default:\<newline>'' @ ind @ ind @ ''break;\<newline>}\<newline>'',
          st\<lparr>rng := r2\<rparr>)))))"

definition gen_conditional :: "state \<Rightarrow> error + (string \<times> state)" where
  "gen_conditional st =
     bind_e (fresh_name (rng st) 6) (\<lambda>(var, r1).
     bind_e (rnd_randint r1 0 10) (\<lambda>(cmp_val, r2).
     bind_e (style_indent st) (\<lambda>ind.
     bind_e (brace_line st (''if ('' @ var @ '' > '' @ str_nat cmp_val @ '')'')) (\<lambda>hd1.
     bind_e (brace_line st ''else'') (\<lambda>hd2.
     Inr (hd1 @ ind @ var @ '' = '' @ str_nat cmp_val @ '';\<newline>}\<newline>''
            @ hd2 @ ind @ var @ '' += '' @ str_nat cmp_val @ '';\<newline>}\<newline>'',
          st\<lparr>rng := r2\<rparr>))))))"

definition gen_loop :: "state \<Rightarrow> error + (string \<times> state)" where
  "gen_loop st =
     bind_e (fresh_name (rng st) 6) (\<lambda>(var, r1).
     bind_e (style_indent st) (\<lambda>ind.
     bind_e (rnd_randint r1 1 5) (\<lambda>(n, r2).
     bind_e (brace_line st (''for (int '' @ var @ '' = 0; '' @ var @ '' < '' @ str_nat n
                              @ ''; ++'' @ var @ '')'')) (\<lambda>hd.
     Inr (hd @ ind @ ''// loop body\<newline>}\<newline>'', st\<lparr>rng := r2\<rparr>)))))"

text \<open>The statements of \<^verbatim>\<open>main\<close>: a call of a declared function, with one \<^verbatim>\<open>0\<close> per
  comma-separated piece of its parameter text, or the fixed \<^verbatim>\<open>printf\<close> line.\<close>

definition HELLO :: string where
  "HELLO = ''printf('' @ [CHR 0x22] @ ''Hello, world!'' @ [CHR 0x5C] @ ''n'' @ [CHR 0x22]
             @ '');\<newline>''"

definition main_pick ::
  "env \<Rightarrow> state \<Rightarrow> prng \<Rightarrow> error + ((string \<times> string \<times> string) option \<times> prng)" where
  "main_pick e st r =
     (if funcs st = [] then Inr (None, r)
      else (case rnd_random r of (u, r1) \<Rightarrow>
              if u < 1 / 2 then
                bind_e (rnd_choice r1 (set_to_list (sig_slot e) (funcs st))) (\<lambda>(sg, r2).
                Inr (Some sg, r2))
              else Inr (None, r1)))"

definition main_stmt :: "string \<Rightarrow> (string \<times> string \<times> string) option \<Rightarrow> string" where
  "main_stmt ind pick =
     (case pick of
        Some (ret, fname, pstr) \<Rightarrow>
          ind @ fname @ ''(''
            @ (if pstr \<noteq> ''void'' then join '', '' (map (\<lambda>_. ''0'') (split_on (CHR '','') pstr))
               else [])
            @ '');\<newline>''
      | None \<Rightarrow> ind @ HELLO)"

fun main_body :: "env \<Rightarrow> state \<Rightarrow> string \<Rightarrow> prng \<Rightarrow> nat \<Rightarrow> error + (string list \<times> prng)" where
  "main_body e st ind r 0 = Inr ([], r)"
| "main_body e st ind r (Suc k) =
     bind_e (main_pick e st r) (\<lambda>(pick, r1).
     bind_e (main_body e st ind r1 k) (\<lambda>(rest, r2).
     Inr (main_stmt ind pick # rest, r2)))"

definition gen_main :: "env \<Rightarrow> state \<Rightarrow> error + (string \<times> state)" where
  "gen_main e st =
     (if main_written st then Inr ([], st)
      else
        bind_e (style_indent st) (\<lambda>ind.
        bind_e (rnd_randint (rng st) 1 3) (\<lambda>(k, r1).
        bind_e (main_body e st ind r1 k) (\<lambda>(body, r2).
        bind_e (brace_line st ''int main(void)'') (\<lambda>hd.
        Inr (hd @ concat (body @ [ind @ ''return 0;\<newline>'']) @ ''}\<newline>'',
             st\<lparr>rng := r2, main_written := True\<rparr>))))))"

section \<open>Registry and builder\<close>

definition REGISTRY :: "env \<Rightarrow> string \<Rightarrow> (state \<Rightarrow> error + (string \<times> state)) option" where
  "REGISTRY e =
     map_of
       [(''comment'', gen_comment), (''include'', gen_include),
        (''define_macro'', gen_define_macro), (''define_macro_f'', gen_define_macro_func),
        (''typedef'', gen_typedef), (''enum'', gen_enum), (''union'', gen_union),
        (''struct'', gen_struct), (''var_decl'', gen_var_decl e),
        (''func_decl'', gen_func_decl e), (''func_def'', gen_func_def e),
        (''switch'', gen_switch), (''conditional'', gen_conditional), (''loop'', gen_loop),
        (''main'', gen_main e)]"

definition PREAMBLE :: string where
  "PREAMBLE = ''/* Auto-generated C code */\<newline>\<newline>''"

text \<open>
  The \<^verbatim>\<open>while lines < cfg.loc\<close> loop of \<^verbatim>\<open>build_c\<close>. Nothing bounds the number of its
  iterations, so it is a partial function: \<open>None\<close> is a loop that never ends, \<open>Some (Inl e)\<close>
  an exception raised inside it, \<open>Some (Inr (parts, st))\<close> its normal exit.
\<close>

partial_function (option) assemble ::
  "env \<Rightarrow> string list \<Rightarrow> rat list \<Rightarrow> int \<Rightarrow> string list \<Rightarrow> int \<Rightarrow> state
     \<Rightarrow> (error + (string list \<times> state)) option" where
  "assemble e kinds ws target parts lines st =
     (if lines < target then
        (case rnd_choices (rng st) kinds ws of
           Inl err \<Rightarrow> Some (Inl err)
         | Inr (kind, r1) \<Rightarrow>
             (case REGISTRY e kind of
                None \<Rightarrow> Some (Inl (KeyError kind))
              | Some gen \<Rightarrow>
                  (case gen (st\<lparr>rng := r1\<rparr>) of
                     Inl err \<Rightarrow> Some (Inl err)
                   | Inr (snippet, st') \<Rightarrow>
                       if snippet \<noteq> []
                       then assemble e kinds ws target (parts @ [snippet])
                              (lines + int (count_nl snippet)) st'
                       else assemble e kinds ws target parts lines st')))
      else Some (Inr (parts, st)))"

definition initial_state :: "prng \<Rightarrow> string \<Rightarrow> state" where
  "initial_state r sty =
     \<lparr>rng = r, style = sty, typedefs = [], structs = [], funcs = [], headers = [],
      main_written = False\<rparr>"

definition choose_style :: "prng \<Rightarrow> string \<Rightarrow> error + (string \<times> prng)" where
  "choose_style r sel =
     (if sel = ''auto'' then rnd_choice r (map fst STYLE_LIST) else Inr (sel, r))"

definition finish :: "env \<Rightarrow> string list \<times> state \<Rightarrow> error + string list" where
  "finish e ps =
     (case ps of (parts, st) \<Rightarrow>
        if \<not> main_written st
        then bind_e (gen_main e st) (\<lambda>(snippet, st'). Inr (parts @ [snippet]))
        else Inr parts)"

definition build_parts :: "env \<Rightarrow> CConfig \<Rightarrow> (error + string list) option" where
  "build_parts e cfg =
     (case choose_style (Random e (seed cfg)) (cfg_style cfg) of
        Inl err \<Rightarrow> Some (Inl err)
      | Inr (sty, r1) \<Rightarrow>
          if weights cfg = []
          then Some (Inl (ValueError ''not enough values to unpack (expected 2, got 0)''))
          else
            (case assemble e (map fst (weights cfg)) (map snd (weights cfg)) (loc cfg)
                    [PREAMBLE] (int (count_nl PREAMBLE)) (initial_state r1 sty) of
               None \<Rightarrow> None
             | Some (Inl err) \<Rightarrow> Some (Inl err)
             | Some (Inr ps) \<Rightarrow> Some (finish e ps)))"

definition build_c :: "env \<Rightarrow> CConfig \<Rightarrow> (error + string) option" where
  "build_c e cfg = map_option (map_sum id concat) (build_parts e cfg)"

section \<open>Predicates of the specification\<close>

text \<open>Text without a newline; text of letters only; text without a blank, a newline or
  an opening parenthesis (every type name and identifier the generators build).\<close>

definition nl_free :: "string \<Rightarrow> bool" where
  "nl_free s = (CHR 0x0A \<notin> set s)"

definition alpha :: "string \<Rightarrow> bool" where
  "alpha s = (set s \<subseteq> set LETTERS \<union> set UPPERS)"

definition wordy :: "string \<Rightarrow> bool" where
  "wordy s = (set s \<inter> {CHR '' '', CHR 0x0A, CHR ''(''} = {})"

text \<open>The shape of what the generators store in the state: aliases are words, a stored
  signature has a word as return type, a six-letter name and a one-line parameter text.\<close>

definition sig_ok :: "string \<times> string \<times> string \<Rightarrow> bool" where
  "sig_ok sg = (case sg of (ret, name, params) \<Rightarrow>
     wordy ret \<and> wordy name \<and> length name = 6 \<and> nl_free params)"

definition wf_state :: "state \<Rightarrow> bool" where
  "wf_state st = (list_all wordy (typedefs st) \<and> list_all sig_ok (funcs st))"

text \<open>An entry-point fragment starts with the header of \<^verbatim>\<open>main\<close>.\<close>

definition is_main_fragment :: "string \<Rightarrow> bool" where
  "is_main_fragment p = prefix ''int main(void)'' p"



text \<open>The rules of \<^verbatim>\<open>random_value\<close> by type category: a pointer gets \<^verbatim>\<open>NULL\<close>,
  \<^verbatim>\<open>char\<close> a quoted letter, \<^verbatim>\<open>int\<close> and \<^verbatim>\<open>long\<close> an integer of \<open>[0, 100]\<close> (with
  the suffix \<^verbatim>\<open>L\<close> for \<^verbatim>\<open>long\<close>), every other type a decimal of \<open>[0.00, 100.00]\<close>
  with two fractional digits.\<close>

definition literal_for :: "string \<Rightarrow> string \<Rightarrow> bool" where
  "literal_for ctype v =
     (if endswith ctype ''*'' then v = ''NULL''
      else if ctype = ''char'' then (\<exists>c \<in> set LETTERS. v = [CHR 0x27, c, CHR 0x27])
      else if ctype = ''int'' then (\<exists>n \<in> {0..100}. v = str_nat n)
      else if ctype = ''long'' then (\<exists>n \<in> {0..100}. v = str_nat n @ ''L'')
      else (\<exists>h \<in> {0..10000}. v = decimal_2f h))"

text \<open>A finite list of raw draws as a stream: zero after its end.\<close>

definition stream_of :: "nat list \<Rightarrow> nat \<Rightarrow> nat" where
  "stream_of xs i = (if i < length xs then xs ! i else 0)"

section \<open>Auxiliary notions of the proofs\<close>

definition open_brace :: "style_entry \<Rightarrow> string" where
  "open_brace ent = (if brace_same ent then '' {\<newline>'' else ''\<newline>{\<newline>'')"

definition grows :: "state \<Rightarrow> state \<Rightarrow> bool" where
  "grows st st' =
     (style st' = style st \<and> set (typedefs st) \<subseteq> set (typedefs st') \<and>
      set (structs st) \<subseteq> set (structs st') \<and> set (funcs st) \<subseteq> set (funcs st') \<and>
      (main_written st \<longrightarrow> main_written st'))"

text \<open>Everything but the random source, the three growing sets, the headers and the
  entry-point flag is left alone; a unit other than \<^verbatim>\<open>include\<close> keeps the headers and a
  unit other than \<^verbatim>\<open>main\<close> keeps the flag.\<close>

definition keeps :: "state \<Rightarrow> state \<Rightarrow> bool" where
  "keeps st st' = (headers st' = headers st \<and> main_written st' = main_written st)"

text \<open>An environment whose streams are all zero and whose sets are listed in insertion
  order.\<close>

definition env0 :: env where
  "env0 = \<lparr>twister = (\<lambda>sd. stream_of []), entropy = stream_of [],
           str_slot = (\<lambda>s. 0), sig_slot = (\<lambda>s. 0)\<rparr>"

text \<open>A fragment of the loop that is not an entry point: between one and seventeen
  newlines.\<close>

definition fragment_ok :: "string \<Rightarrow> bool" where
  "fragment_ok out = (1 \<le> count_nl out \<and> count_nl out \<le> 17 \<and> \<not> is_main_fragment out)"

section \<open>Inputs of the examples\<close>



definition order_stream :: "nat list" where
  "order_stream =
     [0, 0, 0, 0, 0, 0,
      0, 0, 1, 1, 1, 0,
      2 ^ 52, 5, 2 ^ 52, 2, 2, 2, 2, 2, 2, 2 ^ 52]"

definition order_cfg :: CConfig where
  "order_cfg = \<lparr>loc = 5, seed = Some 7, cfg_style = ''kr'', check = False,
     weights = [(''typedef'', 1), (''var_decl'', 1)]\<rparr>"

definition order_env :: "(string \<Rightarrow> nat) \<Rightarrow> env" where
  "order_env slot =
     \<lparr>twister = (\<lambda>sd. stream_of order_stream), entropy = stream_of [],
      str_slot = slot, sig_slot = (\<lambda>s. 0)\<rparr>"

definition big_cfg :: CConfig where
  "big_cfg = \<lparr>loc = 3, seed = Some 2, cfg_style = ''allman'', check = False,
     weights = [(''switch'', 1)]\<rparr>"

definition big_env :: env where
  "big_env =
     \<lparr>twister = (\<lambda>sd. stream_of [0, 0, 0, 0, 0, 0, 0, 2, 2]),
      entropy = stream_of [], str_slot = (\<lambda>s. 0), sig_slot = (\<lambda>s. 0)\<rparr>"

definition big_text :: string where
  "big_text =
     ''/* Auto-generated C code */\<newline>\<newline>''
     @ ''switch (aaaaaa)\<newline>{\<newline>''
     @ ''    case 0:\<newline>        aaaaaa += 0;\<newline>        break;\<newline>''
     @ ''    case 1:\<newline>        aaaaaa += 1;\<newline>        break;\<newline>''
     @ ''    case 2:\<newline>        aaaaaa += 2;\<newline>        break;\<newline>''
     @ ''    case 3:\<newline>        aaaaaa += 3;\<newline>        break;\<newline>''
     @ ''    default:\<newline>        break;\<newline>}\<newline>''
     @ ''int main(void)\<newline>{\<newline>''
     @ ''    '' @ HELLO @ ''    '' @ HELLO @ ''    '' @ HELLO
     @ ''    return 0;\<newline>}\<newline>''"

definition twice_cfg :: CConfig where
  "twice_cfg = \<lparr>loc = 8, seed = Some 1, cfg_style = ''kr'', check = False,
     weights = [(''main'', 1), (''comment'', 1)]\<rparr>"

definition twice_env :: env where
  "twice_env =
     \<lparr>twister = (\<lambda>sd. stream_of [0, 0, 0, 2 ^ 52, 0, 0, 0, 0, 0, 2 ^ 52]),
      entropy = stream_of [], str_slot = (\<lambda>s. 0), sig_slot = (\<lambda>s. 0)\<rparr>"






definition void_stream :: "nat list" where
  "void_stream =
     [0, 1, 21, 14, 8, 3, 0,
      2 ^ 52, 5, 2 ^ 52, 0, 0, 0, 0, 0, 0, 0,
      3 * 2 ^ 51, 0,
      0, 2 ^ 52]"

definition void_cfg :: CConfig where
  "void_cfg = \<lparr>loc = 8, seed = Some 0, cfg_style = ''kr'', check = False,
     weights = [(''typedef'', 1), (''func_decl'', 1), (''func_def'', 1)]\<rparr>"

section \<open>Basic facts\<close>

lemma bind_e_Inr [simp]: "bind_e (Inr x) f = f x"
  by (simp add: bind_e_def)

lemma bind_e_Inl [simp]: "bind_e (Inl e) f = Inl e"
  by (simp add: bind_e_def)

lemma bind_e_eq_Inr: "bind_e m f = Inr y \<longleftrightarrow> (\<exists>x. m = Inr x \<and> f x = Inr y)"
  by (cases m) auto

lemma bind_e_InrE:
  assumes "bind_e m f = Inr y"
  obtains x where "m = Inr x" "f x = Inr y"
  using assms by (cases m) auto

lemma bind_e_pairE:
  assumes "bind_e m (\<lambda>(a, b). g a b) = Inr y"
  obtains a b where "m = Inr (a, b)" "g a b = Inr y"
  using assms by (cases m) auto

lemma rnd_choice_Inr: "rnd_choice r xs = Inr (x, r') \<Longrightarrow> x \<in> set xs"
  by (auto simp: rnd_choice_def randbelow_def next_raw_def split: if_splits)

lemma rnd_randint_Inr: "rnd_randint r a b = Inr (v, r') \<Longrightarrow> a \<le> v \<and> v \<le> b"
proof -
  assume h: "rnd_randint r a b = Inr (v, r')"
  then have ab: "a \<le> b" by (auto simp: rnd_randint_def split: if_splits)
  from h ab have "v = a + src r (pos r) mod (b - a + 1)"
    by (auto simp: rnd_randint_def randbelow_def next_raw_def split: if_splits)
  moreover have "src r (pos r) mod (b - a + 1) < b - a + 1" by simp
  ultimately show ?thesis using ab by linarith
qed

lemma fresh_name_Inr:
  "fresh_name r n = Inr (s, r') \<Longrightarrow> length s = n \<and> set s \<subseteq> set LETTERS"
proof (induction n arbitrary: r s r')
  case 0
  then show ?case by simp
next
  case (Suc n)
  from Suc.prems obtain c r1 cs where
    c: "rnd_choice r LETTERS = Inr (c, r1)" and cs: "fresh_name r1 n = Inr (cs, r')" and s: "s = c # cs"
    by (auto simp: bind_e_eq_Inr)
  from Suc.IH[OF cs] rnd_choice_Inr[OF c] s show ?case by simp
qed

lemma count_nl_Nil [simp]: "count_nl [] = 0"
  by (simp add: count_nl_def)

lemma count_nl_Cons [simp]: "count_nl (c # s) = (if c = CHR 0x0A then 1 else 0) + count_nl s"
  by (simp add: count_nl_def)

lemma count_nl_append [simp]: "count_nl (a @ b) = count_nl a + count_nl b"
  by (simp add: count_nl_def)

lemma nl_free_count [simp]: "nl_free s \<Longrightarrow> count_nl s = 0"
  by (induction s) (auto simp: nl_free_def)

lemma nl_free_Nil [simp]: "nl_free []"
  by (simp add: nl_free_def)

lemma nl_free_Cons [simp]: "nl_free (c # s) \<longleftrightarrow> c \<noteq> CHR 0x0A \<and> nl_free s"
  by (auto simp: nl_free_def)

lemma nl_free_append [simp]: "nl_free (a @ b) \<longleftrightarrow> nl_free a \<and> nl_free b"
  by (auto simp: nl_free_def)

lemma wordy_Nil [simp]: "wordy []"
  by (simp add: wordy_def)

lemma wordy_Cons [simp]:
  "wordy (c # s) \<longleftrightarrow> c \<noteq> CHR '' '' \<and> c \<noteq> CHR 0x0A \<and> c \<noteq> CHR ''('' \<and> wordy s"
  by (auto simp: wordy_def)

lemma wordy_append [simp]: "wordy (a @ b) \<longleftrightarrow> wordy a \<and> wordy b"
  by (auto simp: wordy_def)

lemma alpha_wordy: "alpha s \<Longrightarrow> wordy s"
  by (auto simp: alpha_def wordy_def LETTERS_def UPPERS_def)

lemma wordy_nl_free: "wordy s \<Longrightarrow> nl_free s"
  by (auto simp: nl_free_def wordy_def)

lemma lower_alpha: "set s \<subseteq> set LETTERS \<Longrightarrow> alpha s"
  by (auto simp: alpha_def)

lemma upper_char_letter: "c \<in> set LETTERS \<union> set UPPERS \<Longrightarrow> upper_char c \<in> set LETTERS \<union> set UPPERS"
  by (auto simp: upper_char_def LETTERS_def UPPERS_def)

lemma lower_char_letter: "c \<in> set LETTERS \<union> set UPPERS \<Longrightarrow> lower_char c \<in> set LETTERS \<union> set UPPERS"
  by (auto simp: lower_char_def LETTERS_def UPPERS_def)

lemma alpha_upper: "alpha s \<Longrightarrow> alpha (upper s)"
  using upper_char_letter by (auto simp: alpha_def upper_def)

lemma alpha_capitalize: "alpha s \<Longrightarrow> alpha (capitalize s)"
proof (cases s)
  case Nil
  then show ?thesis by (simp add: capitalize_def alpha_def)
next
  case (Cons c cs)
  assume a: "alpha s"
  with Cons have c: "c \<in> set LETTERS \<union> set UPPERS"
    and cs: "\<forall>x\<in>set cs. x \<in> set LETTERS \<union> set UPPERS"
    by (auto simp: alpha_def)
  have "upper_char c \<in> set LETTERS \<union> set UPPERS"
    by (rule upper_char_letter[OF c])
  moreover have "\<forall>x\<in>set cs. lower_char x \<in> set LETTERS \<union> set UPPERS"
    using cs lower_char_letter by blast
  ultimately show ?thesis
    using Cons by (simp add: capitalize_def alpha_def image_subset_iff)
qed

lemma digit_in_digits: "digit d \<in> set ''0123456789''"
  unfolding digit_def by (rule nth_mem) simp

lemma digit_not_nl: "digit d \<noteq> CHR 0x0A"
  using digit_in_digits[of d] by auto

lemma str_nat_nl_free: "nl_free (str_nat n)"
proof (induction n rule: str_nat.induct)
  case (1 n)
  show ?case
    by (subst str_nat.simps) (use 1 digit_not_nl in auto)
qed

lemma str_nat_not_Nil: "str_nat n \<noteq> []"
  by (subst str_nat.simps) simp

section \<open>Helpers\<close>

lemma set_to_list_set [simp]: "set (set_to_list f xs) = set xs"
  by (simp add: set_to_list_def)

lemma set_to_list_Nil [simp]: "set_to_list f xs = [] \<longleftrightarrow> xs = []"
  by (metis set_to_list_set set_empty)

lemma set_add_set [simp]: "set (set_add x xs) = insert x (set xs)"
  by (auto simp: set_add_def)

lemma endswith_star: "endswith s ''*'' \<longleftrightarrow> s \<noteq> [] \<and> last s = CHR ''*''"
proof
  assume "endswith s ''*''"
  then show "s \<noteq> [] \<and> last s = CHR ''*''" by (auto simp: endswith_def suffix_def)
next
  assume "s \<noteq> [] \<and> last s = CHR ''*''"
  then have "s = butlast s @ ''*''" by (metis append_butlast_last_id)
  then show "endswith s ''*''" unfolding endswith_def suffix_def by blast
qed

lemma choose_ctype_Inr:
  assumes "choose_ctype r extra = Inr (t, r')"
  shows "\<exists>b \<in> set BASE_CTYPES \<union> set extra. t = b \<or> t = b @ ''*''"
  using assms
  by (auto simp: choose_ctype_def bind_e_eq_Inr case_prod_beta split: if_splits
        dest!: rnd_choice_Inr)

lemma randbelow_less: "0 < n \<Longrightarrow> randbelow r n = (i, r') \<Longrightarrow> i < n"
  by (auto simp: randbelow_def next_raw_def)

lemma rnd_uniform_2f_shape:
  assumes "rnd_uniform_2f r = (v, r')"
  shows "\<exists>h \<in> {0..10000}. v = decimal_2f h"
proof -
  obtain h r1 where h: "randbelow r 10001 = (h, r1)" by (cases "randbelow r 10001")
  from randbelow_less[OF _ h] have "h < 10001" by simp
  then have "h \<in> {0..10000}" by simp
  moreover from assms h have "v = decimal_2f h" by (simp add: rnd_uniform_2f_def)
  ultimately show ?thesis by blast
qed

lemma random_value_Inr:
  assumes "random_value r t = Inr (v, r')"
  shows "literal_for t v"
proof -
  consider (ptr) "endswith t ''*''"
    | (chr) "\<not> endswith t ''*''" "t = ''char''"
    | (int) "\<not> endswith t ''*''" "t = ''int''"
    | (long) "\<not> endswith t ''*''" "t = ''long''"
    | (other) "\<not> endswith t ''*''" "t \<noteq> ''char''" "t \<noteq> ''int''" "t \<noteq> ''long''"
    by blast
  then show ?thesis
  proof cases
    case ptr
    with assms show ?thesis by (simp add: random_value_def literal_for_def)
  next
    case chr
    with assms show ?thesis
      by (auto simp: random_value_def literal_for_def bind_e_eq_Inr dest!: rnd_choice_Inr)
  next
    case int
    with assms show ?thesis
      by (auto simp: random_value_def literal_for_def bind_e_eq_Inr dest!: rnd_randint_Inr)
  next
    case long
    with assms show ?thesis
      by (auto simp: random_value_def literal_for_def bind_e_eq_Inr dest!: rnd_randint_Inr)
  next
    case other
    with assms obtain tx where "rnd_uniform_2f r = (tx, r')" "v = tx"
      by (auto simp: random_value_def split: prod.splits)
    with rnd_uniform_2f_shape other show ?thesis
      by (simp add: literal_for_def)
  qed
qed

lemma decimal_2f_nl_free: "nl_free (decimal_2f h)"
  by (simp add: decimal_2f_def str_nat_nl_free digit_not_nl)

lemma letters_not_nl: "c \<in> set LETTERS \<Longrightarrow> c \<noteq> CHR 0x0A"
  by (auto simp: LETTERS_def)

lemma base_not_pointer: "t \<in> set BASE_CTYPES \<Longrightarrow> \<not> endswith t ''*''"
  by (auto simp: BASE_CTYPES_def endswith_star)

lemma literal_for_base_nl_free:
  assumes "literal_for t v" "t \<in> set BASE_CTYPES"
  shows "nl_free v"
proof -
  from assms base_not_pointer consider
      (c) c where "c \<in> set LETTERS" "v = [CHR 0x27, c, CHR 0x27]"
    | (n) n where "v = str_nat n"
    | (l) n where "v = str_nat n @ ''L''"
    | (d) h where "v = decimal_2f h"
    unfolding literal_for_def by (metis (full_types))
  then show ?thesis
  proof cases
    case c
    then show ?thesis using letters_not_nl by simp
  next
    case n
    then show ?thesis by (simp add: str_nat_nl_free)
  next
    case l
    then show ?thesis by (simp add: str_nat_nl_free)
  next
    case d
    then show ?thesis by (simp add: decimal_2f_nl_free)
  qed
qed

lemma var_init_Inr:
  assumes "var_init r ctype = Inr (init, r')"
  shows "init = [] \<or> (\<not> endswith ctype ''*'' \<and>
           (\<exists>t \<in> set BASE_CTYPES. \<exists>v. literal_for t v \<and> init = '' = '' @ v))"
proof (cases "endswith ctype ''*''")
  case True
  with assms show ?thesis by (simp add: var_init_def)
next
  case False
  show ?thesis
  proof (cases "fst (rnd_random r) < 1 / 2")
    case True
    with assms False obtain t r2 v where
      t: "rnd_choice (snd (rnd_random r)) BASE_CTYPES = Inr (t, r2)" and
      v: "random_value r2 t = Inr (v, r')" and i: "init = '' = '' @ v"
      by (auto simp: var_init_def bind_e_eq_Inr case_prod_beta)
    from rnd_choice_Inr[OF t] random_value_Inr[OF v] i False show ?thesis by blast
  next
    case f: False
    with assms False show ?thesis by (simp add: var_init_def case_prod_beta)
  qed
qed

lemma var_init_nl_free:
  assumes "var_init r ctype = Inr (init, r')"
  shows "nl_free init"
proof -
  from var_init_Inr[OF assms] consider "init = []"
    | t v where "t \<in> set BASE_CTYPES" "literal_for t v" "init = '' = '' @ v"
    by blast
  then show ?thesis
  proof cases
    case 1
    then show ?thesis by simp
  next
    case 2
    with literal_for_base_nl_free show ?thesis by simp
  qed
qed

lemma func_params_Inr:
  "func_params r extra k = Inr (ps, r') \<Longrightarrow> list_all wordy extra \<Longrightarrow>
     length ps = k \<and> list_all nl_free ps"
proof (induction k arbitrary: r ps r')
  case 0
  then show ?case by simp
next
  case (Suc k)
  from Suc.prems(1) obtain t r1 nm r2 rest where
    t: "choose_ctype r extra = Inr (t, r1)" and nm: "fresh_name r1 6 = Inr (nm, r2)" and
    rest: "func_params r2 extra k = Inr (rest, r')" and ps: "ps = (t @ '' '' @ nm) # rest"
    by (auto simp: bind_e_eq_Inr)
  from choose_ctype_Inr[OF t] Suc.prems(2) have "wordy t"
    by (auto simp: list_all_iff BASE_CTYPES_def)
  moreover from fresh_name_Inr[OF nm] have "wordy nm"
    by (simp add: alpha_wordy lower_alpha)
  ultimately have "nl_free (t @ '' '' @ nm)" by (simp add: wordy_nl_free)
  with Suc.IH[OF rest Suc.prems(2)] ps show ?case by simp
qed

lemma struct_lines_Inr:
  "struct_lines r k = Inr (ls, r') \<Longrightarrow> length ls = k \<and> list_all nl_free ls"
proof (induction k arbitrary: r ls r')
  case 0
  then show ?case by simp
next
  case (Suc k)
  from Suc.prems obtain t r1 n r2 nm r3 rest where
    t: "rnd_choice r BASE_CTYPES = Inr (t, r1)" and nm: "fresh_name r2 n = Inr (nm, r3)" and
    rest: "struct_lines r3 k = Inr (rest, r')" and ls: "ls = (''    '' @ t @ '' '' @ nm @ '';'') # rest"
    by (auto simp: bind_e_eq_Inr)
  from rnd_choice_Inr[OF t] have "nl_free t" by (auto simp: BASE_CTYPES_def)
  moreover from fresh_name_Inr[OF nm] have "nl_free nm"
    by (simp add: alpha_wordy lower_alpha wordy_nl_free)
  ultimately show ?case using Suc.IH[OF rest] ls by simp
qed

lemma union_fields_Inr:
  "union_fields r ts = Inr (fs, r') \<Longrightarrow> list_all nl_free ts \<Longrightarrow>
     length fs = length ts \<and> list_all nl_free fs"
proof (induction ts arbitrary: r fs r')
  case Nil
  then show ?case by simp
next
  case (Cons t ts)
  from Cons.prems(1) obtain nm r1 rest where
    nm: "fresh_name r 6 = Inr (nm, r1)" and rest: "union_fields r1 ts = Inr (rest, r')" and
    fs: "fs = (''    '' @ t @ '' '' @ nm @ '';'') # rest"
    by (auto simp: bind_e_eq_Inr)
  from fresh_name_Inr[OF nm] have "nl_free nm"
    by (simp add: alpha_wordy lower_alpha wordy_nl_free)
  with Cons.IH[OF rest] Cons.prems(2) fs show ?case by simp
qed

lemma sample_pool_shape:
  "k \<le> length pool \<Longrightarrow> sample_pool r pool k = (xs, r') \<Longrightarrow> length xs = k \<and> set xs \<subseteq> set pool"
proof (induction k arbitrary: r pool xs r')
  case 0
  then show ?case by simp
next
  case (Suc k)
  obtain j r1 where j: "randbelow r (length pool) = (j, r1)" by (cases "randbelow r (length pool)")
  obtain rest r2 where rest: "sample_pool r1 (butlast (pool[j := last pool])) k = (rest, r2)"
    by (cases "sample_pool r1 (butlast (pool[j := last pool])) k")
  from Suc.prems(1) have ne: "pool \<noteq> []" by auto
  with randbelow_less[OF _ j] have jl: "j < length pool" by simp
  from Suc.prems(2) j rest have xs: "xs = pool ! j # rest" by simp
  have "k \<le> length (butlast (pool[j := last pool]))" using Suc.prems(1) by simp
  from Suc.IH[OF this rest] have l: "length rest = k" and
    s: "set rest \<subseteq> set (butlast (pool[j := last pool]))" by auto
  have "set (butlast (pool[j := last pool])) \<subseteq> set (pool[j := last pool])"
    by (meson in_set_butlastD subsetI)
  also have "\<dots> \<subseteq> insert (last pool) (set pool)" by (rule set_update_subset_insert)
  also have "\<dots> = set pool" using ne by auto
  finally show ?case using xs l s jl by auto
qed

section \<open>Text facts\<close>

lemma lower_wordy: "set s \<subseteq> set LETTERS \<Longrightarrow> wordy s"
  by (simp add: alpha_wordy lower_alpha)

lemma lower_nl_free: "set s \<subseteq> set LETTERS \<Longrightarrow> nl_free s"
  by (simp add: lower_wordy wordy_nl_free)

lemma alpha_nl_free: "alpha s \<Longrightarrow> nl_free s"
  by (simp add: alpha_wordy wordy_nl_free)

lemma count_nl_join:
  "list_all nl_free ls \<Longrightarrow> count_nl (join sep ls) = (length ls - 1) * count_nl sep"
  by (induction sep ls rule: join.induct) auto

lemma count_nl_join_nl:
  "list_all nl_free ls \<Longrightarrow> count_nl (join ''\<newline>'' ls) = length ls - 1"
  by (simp add: count_nl_join)

lemma nl_free_join:
  "nl_free sep \<Longrightarrow> list_all nl_free ls \<Longrightarrow> nl_free (join sep ls)"
  by (induction sep ls rule: join.induct) auto

lemma style_table_cases:
  assumes "STYLE_TABLE name = Inr ent"
  shows "name \<in> {''kr'', ''allman'', ''gnu''} \<and> indent ent \<in> {''    '', ''  ''}"
  using assms by (auto simp: STYLE_TABLE_def STYLE_LIST_def split: if_splits)

lemma style_indent_nl_free: "STYLE_TABLE name = Inr ent \<Longrightarrow> nl_free (indent ent)"
  by (auto dest!: style_table_cases)

lemma style_indent_Inr:
  "style_indent st = Inr ind \<Longrightarrow> \<exists>ent. STYLE_TABLE (style st) = Inr ent \<and> ind = indent ent"
  by (auto simp: style_indent_def bind_e_eq_Inr)

lemma brace_line_Inr:
  "brace_line st h = Inr x \<Longrightarrow>
     \<exists>ent. STYLE_TABLE (style st) = Inr ent \<and>
       x = h @ (if brace_same ent then '' {\<newline>'' else ''\<newline>{\<newline>'')"
  by (auto simp: brace_line_def bind_e_eq_Inr split: if_splits)

lemma brace_line_count:
  "brace_line st h = Inr x \<Longrightarrow> nl_free h \<Longrightarrow> 1 \<le> count_nl x \<and> count_nl x \<le> 2"
  by (auto dest!: brace_line_Inr)

lemma brace_line_prefix: "brace_line st h = Inr x \<Longrightarrow> prefix h x"
  by (auto dest!: brace_line_Inr)

lemma style_indent_ind_nl_free: "style_indent st = Inr ind \<Longrightarrow> nl_free ind"
  by (auto dest!: style_indent_Inr style_indent_nl_free)

section \<open>What each generator returns\<close>

lemma gen_comment_shape:
  assumes "gen_comment st = Inr (out, st')"
  obtains tag nm r' where
    "out = tag @ '': '' @ nm @ ''\<newline>''" "st' = st\<lparr>rng := r'\<rparr>"
    "set nm \<subseteq> set LETTERS" "tag \<in> {''// TODO'', ''// FIXME'', ''// NOTE'', ''// HACK''}"
  using assms
  by (auto simp: gen_comment_def bind_e_eq_Inr dest!: rnd_choice_Inr fresh_name_Inr)

lemma gen_include_unfold:
  "gen_include st =
     bind_e (rnd_choice (rng st)
               (if set HDRS \<subseteq> set (headers st) then HDRS
                else filter (\<lambda>h. h \<notin> set (headers st)) HDRS))
       (\<lambda>(hdr, r1). Inr (''#include '' @ hdr @ ''\<newline>'',
           st\<lparr>rng := r1,
              headers := (if set HDRS \<subseteq> set (headers st) then [hdr]
                          else set_add hdr (headers st))\<rparr>))"
proof -
  have e: "filter (\<lambda>h. h \<notin> set (headers st)) HDRS = [] \<longleftrightarrow> set HDRS \<subseteq> set (headers st)"
    by (auto simp: filter_empty_conv)
  show ?thesis
    unfolding gen_include_def Let_def e by (simp add: set_add_def)
qed

lemma gen_include_shape:
  assumes "gen_include st = Inr (out, st')"
  shows "\<exists>h r'. h \<in> set HDRS \<and> out = ''#include '' @ h @ ''\<newline>'' \<and>
           (if set HDRS \<subseteq> set (headers st) then st' = st\<lparr>rng := r', headers := [h]\<rparr>
            else h \<notin> set (headers st) \<and> st' = st\<lparr>rng := r', headers := headers st @ [h]\<rparr>)"
proof -
  from assms[unfolded gen_include_unfold] obtain h r' where
    c: "rnd_choice (rng st)
               (if set HDRS \<subseteq> set (headers st) then HDRS
                else filter (\<lambda>h. h \<notin> set (headers st)) HDRS) = Inr (h, r')" and
    o: "out = ''#include '' @ h @ ''\<newline>''" and
    s: "st' = st\<lparr>rng := r', headers := (if set HDRS \<subseteq> set (headers st) then [h]
                          else set_add h (headers st))\<rparr>"
    by (elim bind_e_pairE) simp
  show ?thesis
  proof (cases "set HDRS \<subseteq> set (headers st)")
    case True
    with c have "h \<in> set HDRS" by (auto dest: rnd_choice_Inr)
    with o s True show ?thesis by auto
  next
    case False
    with c have "h \<in> set HDRS" "h \<notin> set (headers st)" by (auto dest!: rnd_choice_Inr)
    with o s False show ?thesis by (auto simp: set_add_def)
  qed
qed

lemma gen_define_macro_shape:
  assumes "gen_define_macro st = Inr (out, st')"
  obtains nm v r' where
    "out = ''#define '' @ upper nm @ '' '' @ str_nat v @ ''\<newline>''" "st' = st\<lparr>rng := r'\<rparr>"
    "set nm \<subseteq> set LETTERS"
  using assms
  by (auto simp: gen_define_macro_def bind_e_eq_Inr dest!: fresh_name_Inr)

lemma gen_define_macro_func_shape:
  assumes "gen_define_macro_func st = Inr (out, st')"
  obtains nm param r' where
    "out = ''#define '' @ upper nm @ ''('' @ param @ '') (('' @ param @ '') * ('' @ param
            @ ''))\<newline>''" "st' = st\<lparr>rng := r'\<rparr>"
    "set nm \<subseteq> set LETTERS" "set param \<subseteq> set LETTERS"
  using assms
  by (auto simp: gen_define_macro_func_def bind_e_eq_Inr simp del: fresh_name.simps
        dest!: fresh_name_Inr)

lemma gen_typedef_shape:
  assumes "gen_typedef st = Inr (out, st')"
  obtains al base r' where
    "out = ''typedef '' @ base @ '' '' @ al @ '';\<newline>''"
    "st' = st\<lparr>rng := r', typedefs := set_add al (typedefs st)\<rparr>"
    "set al \<subseteq> set LETTERS" "base \<in> set BASE_CTYPES"
  using assms
  by (auto simp: gen_typedef_def bind_e_eq_Inr dest!: rnd_choice_Inr fresh_name_Inr)

lemma enum_items_nl_free:
  "nl_free nm \<Longrightarrow> nl_free (join '', '' (map (\<lambda>i. nm @ ''_'' @ str_nat i) xs))"
  by (rule nl_free_join) (auto simp: list_all_iff str_nat_nl_free)

lemma gen_enum_shape:
  assumes "gen_enum st = Inr (out, st')"
  obtains name items r' where
    "out = ''typedef enum { '' @ items @ '' } '' @ name @ '';\<newline>''"
    "st' = st\<lparr>rng := r', typedefs := set_add name (typedefs st)\<rparr>"
    "alpha name" "nl_free items"
proof -
  from assms obtain n r1 nm r2 k r3 where
    nm: "fresh_name r1 n = Inr (nm, r2)" and
    o: "out = ''typedef enum { '' @ join '', '' (map (\<lambda>i. upper (capitalize nm) @ ''_'' @ str_nat i) [0..<k])
              @ '' } '' @ capitalize nm @ '';\<newline>''" and
    s: "st' = st\<lparr>rng := r3, typedefs := set_add (capitalize nm) (typedefs st)\<rparr>"
    by (auto simp: gen_enum_def bind_e_eq_Inr Let_def)
  from fresh_name_Inr[OF nm] have a: "alpha (capitalize nm)"
    by (simp add: alpha_capitalize lower_alpha)
  then have "nl_free (upper (capitalize nm))" by (simp add: alpha_upper alpha_nl_free)
  then have "nl_free (join '', '' (map (\<lambda>i. upper (capitalize nm) @ ''_'' @ str_nat i) [0..<k]))"
    by (rule enum_items_nl_free)
  with o s a that show ?thesis by blast
qed

lemma gen_union_shape:
  assumes "gen_union st = Inr (out, st')"
  obtains name fields r' where
    "out = ''typedef union '' @ name @ '' {\<newline>'' @ join ''\<newline>'' fields
             @ ''\<newline>} '' @ name @ '';\<newline>''"
    "st' = st\<lparr>rng := r', structs := set_add name (structs st)\<rparr>"
    "alpha name" "length fields = 2" "list_all nl_free fields"
proof -
  from assms obtain n r1 nm r2 ts r3 fields r4 where
    nm: "fresh_name r1 n = Inr (nm, r2)" and
    ts: "rnd_sample r2 BASE_CTYPES 2 = Inr (ts, r3)" and
    fs: "union_fields r3 ts = Inr (fields, r4)" and
    o: "out = ''typedef union '' @ capitalize nm @ '' {\<newline>'' @ join ''\<newline>'' fields
             @ ''\<newline>} '' @ capitalize nm @ '';\<newline>''" and
    s: "st' = st\<lparr>rng := r4, structs := set_add (capitalize nm) (structs st)\<rparr>"
    by (auto simp: gen_union_def bind_e_eq_Inr Let_def)
  from fresh_name_Inr[OF nm] have a: "alpha (capitalize nm)"
    by (simp add: alpha_capitalize lower_alpha)
  from ts have sp: "sample_pool r2 BASE_CTYPES 2 = (ts, r3)"
    by (auto simp: rnd_sample_def split: if_splits)
  have "2 \<le> length BASE_CTYPES" by (simp add: BASE_CTYPES_def)
  from sample_pool_shape[OF this sp] have l: "length ts = 2" and sub: "set ts \<subseteq> set BASE_CTYPES"
    by auto
  from sub have "list_all nl_free ts" by (auto simp: list_all_iff BASE_CTYPES_def)
  from union_fields_Inr[OF fs this] l have "length fields = 2" "list_all nl_free fields" by auto
  with o s a that show ?thesis by blast
qed

lemma gen_struct_shape:
  assumes "gen_struct st = Inr (out, st')"
  obtains name ls r' where
    "out = ''typedef struct '' @ name @ '' {\<newline>'' @ join ''\<newline>'' ls
             @ ''\<newline>} '' @ name @ '';\<newline>''"
    "st' = st\<lparr>rng := r', structs := set_add name (structs st)\<rparr>"
    "alpha name" "1 \<le> length ls" "length ls \<le> 3" "list_all nl_free ls"
proof -
  from assms obtain n r1 nm r2 k r3 ls r4 where
    nm: "fresh_name r1 n = Inr (nm, r2)" and
    k: "rnd_randint r2 1 3 = Inr (k, r3)" and
    ls: "struct_lines r3 k = Inr (ls, r4)" and
    o: "out = ''typedef struct '' @ capitalize nm @ '' {\<newline>'' @ join ''\<newline>'' ls
             @ ''\<newline>} '' @ capitalize nm @ '';\<newline>''" and
    s: "st' = st\<lparr>rng := r4, structs := set_add (capitalize nm) (structs st)\<rparr>"
    by (auto simp: gen_struct_def bind_e_eq_Inr Let_def)
  from fresh_name_Inr[OF nm] have a: "alpha (capitalize nm)"
    by (simp add: alpha_capitalize lower_alpha)
  from struct_lines_Inr[OF ls] rnd_randint_Inr[OF k]
  have "1 \<le> length ls" "length ls \<le> 3" "list_all nl_free ls" by auto
  with o s a that show ?thesis by blast
qed

lemma brace_line_open:
  "brace_line st h = Inr x \<Longrightarrow> STYLE_TABLE (style st) = Inr ent \<Longrightarrow> x = h @ open_brace ent"
  by (auto simp: open_brace_def dest!: brace_line_Inr)

lemma style_indent_ent:
  "style_indent st = Inr ind \<Longrightarrow> STYLE_TABLE (style st) = Inr ent \<Longrightarrow> ind = indent ent"
  by (auto dest!: style_indent_Inr)

lemma style_indent_obtain:
  assumes "style_indent st = Inr ind"
  obtains ent where "STYLE_TABLE (style st) = Inr ent" "ind = indent ent"
  using assms by (auto dest!: style_indent_Inr)

lemma open_brace_count: "1 \<le> count_nl (open_brace ent) \<and> count_nl (open_brace ent) \<le> 2"
  by (simp add: open_brace_def)

lemma gen_var_decl_shape:
  assumes "gen_var_decl e st = Inr (out, st')"
  obtains ctype name init r' where
    "out = ctype @ '' '' @ name @ init @ '';\<newline>''" "st' = st\<lparr>rng := r'\<rparr>"
    "\<exists>b \<in> set BASE_CTYPES \<union> set (typedefs st). ctype = b \<or> ctype = b @ ''*''"
    "set name \<subseteq> set LETTERS" "length name = 6"
    "init = [] \<or> (\<not> endswith ctype ''*'' \<and>
           (\<exists>t \<in> set BASE_CTYPES. \<exists>v. literal_for t v \<and> init = '' = '' @ v))"
proof -
  from assms[unfolded gen_var_decl_def] obtain ctype r1 name r2 init r3 where
    c: "choose_ctype (rng st) (set_to_list (str_slot e) (typedefs st)) = Inr (ctype, r1)" and
    n: "fresh_name r1 6 = Inr (name, r2)" and
    i: "var_init r2 ctype = Inr (init, r3)" and
    o: "out = ctype @ '' '' @ name @ init @ '';\<newline>''" and s: "st' = st\<lparr>rng := r3\<rparr>"
    by (elim bind_e_pairE) simp
  from choose_ctype_Inr[OF c]
  have "\<exists>b \<in> set BASE_CTYPES \<union> set (typedefs st). ctype = b \<or> ctype = b @ ''*''" by simp
  with o s fresh_name_Inr[OF n] var_init_Inr[OF i] that show ?thesis by blast
qed

lemma gen_func_decl_shape:
  assumes "gen_func_decl e st = Inr (out, st')"
  obtains ret name ps r' where
    "out = ret @ '' '' @ name @ ''('' @ ps @ '');\<newline>''"
    "st' = st\<lparr>rng := r', funcs := set_add (ret, name, ps) (funcs st)\<rparr>"
    "\<exists>b \<in> set BASE_CTYPES \<union> set (typedefs st). ret = b \<or> ret = b @ ''*''"
    "set name \<subseteq> set LETTERS" "length name = 6"
    "list_all wordy (typedefs st) \<Longrightarrow> nl_free ps"
proof -
  from assms[unfolded gen_func_decl_def Let_def] obtain ret r1 name r2 k r3 params r4 where
    c: "choose_ctype (rng st) (set_to_list (str_slot e) (typedefs st)) = Inr (ret, r1)" and
    n: "fresh_name r1 6 = Inr (name, r2)" and
    p: "func_params r3 (set_to_list (str_slot e) (typedefs st)) k = Inr (params, r4)" and
    o: "out = ret @ '' '' @ name @ ''('' @ (if params \<noteq> [] then join '', '' params else ''void'')
              @ '');\<newline>''" and
    s: "st' = st\<lparr>rng := r4, funcs := set_add (ret, name,
              (if params \<noteq> [] then join '', '' params else ''void'')) (funcs st)\<rparr>"
    by (elim bind_e_pairE) simp
  from choose_ctype_Inr[OF c]
  have r: "\<exists>b \<in> set BASE_CTYPES \<union> set (typedefs st). ret = b \<or> ret = b @ ''*''" by simp
  have "nl_free (if params \<noteq> [] then join '', '' params else ''void'')"
    if w: "list_all wordy (typedefs st)"
  proof -
    from w have "list_all wordy (set_to_list (str_slot e) (typedefs st))"
      by (simp add: list_all_iff)
    from func_params_Inr[OF p this] have "list_all nl_free params" by simp
    then show ?thesis by (simp add: nl_free_join)
  qed
  with o s r fresh_name_Inr[OF n] that show ?thesis by blast
qed

lemma Inr_pair_eqE:
  assumes "(Inr (a, b) :: error + 'a \<times> 'b) = Inr (x, y)"
  obtains "x = a" "y = b"
  using assms by simp

lemma func_body_Inr:
  assumes "func_body r ind ret = Inr (body, r')"
  shows "if ret = ''void'' then body = ind @ ''// function body\<newline>''
         else (\<exists>t \<in> set BASE_CTYPES. \<exists>v. literal_for t v \<and>
                 body = ind @ ''return '' @ v @ '';\<newline>'')"
proof (cases "ret = ''void''")
  case True
  with assms show ?thesis by (simp add: func_body_def)
next
  case False
  with assms have "bind_e (rnd_choice r BASE_CTYPES) (\<lambda>(t, r1).
           bind_e (random_value r1 t) (\<lambda>(v, r2).
           Inr (ind @ ''return '' @ v @ '';\<newline>'', r2))) = Inr (body, r')"
    by (simp add: func_body_def)
  then obtain t r1 v r2 where
    t: "rnd_choice r BASE_CTYPES = Inr (t, r1)" and v: "random_value r1 t = Inr (v, r2)" and
    b: "body = ind @ ''return '' @ v @ '';\<newline>''"
    by (elim bind_e_pairE) simp
  with False rnd_choice_Inr[OF t] random_value_Inr[OF v] show ?thesis by auto
qed

lemma func_body_count:
  assumes "func_body r ind ret = Inr (body, r')" "nl_free ind"
  shows "count_nl body = 1"
proof (cases "ret = ''void''")
  case True
  with func_body_Inr[OF assms(1)] assms(2) show ?thesis by simp
next
  case False
  with func_body_Inr[OF assms(1)] obtain t v where
    "t \<in> set BASE_CTYPES" "literal_for t v" "body = ind @ ''return '' @ v @ '';\<newline>''"
    by auto
  with literal_for_base_nl_free assms(2) show ?thesis by simp
qed

lemma gen_func_def_empty: "funcs st = [] \<Longrightarrow> gen_func_def e st = Inr ([], st)"
  by (simp add: gen_func_def_def)

lemma gen_func_def_shape:
  assumes "gen_func_def e st = Inr (out, st')" "funcs st \<noteq> []"
  obtains ret name ps ent body r0 r' where
    "(ret, name, ps) \<in> set (funcs st)" "STYLE_TABLE (style st) = Inr ent"
    "func_body r0 (indent ent) ret = Inr (body, r')"
    "out = (ret @ '' '' @ name @ ''('' @ ps @ '')'') @ open_brace ent @ body @ ''}\<newline>\<newline>''"
    "st' = st\<lparr>rng := r'\<rparr>"
proof -
  from assms have "bind_e (rnd_choice (rng st) (set_to_list (sig_slot e) (funcs st))) (\<lambda>(sg, r1).
        bind_e (style_indent st) (\<lambda>ind.
        bind_e (func_body r1 ind (fst sg)) (\<lambda>(body, r2).
        bind_e (brace_line st (fst sg @ '' '' @ fst (snd sg) @ ''('' @ snd (snd sg) @ '')'')) (\<lambda>hd.
        Inr (hd @ body @ ''}\<newline>\<newline>'', st\<lparr>rng := r2\<rparr>))))) = Inr (out, st')"
    by (simp add: gen_func_def_def split_def)
  then obtain sg r1 ind body r2 hd where
    c: "rnd_choice (rng st) (set_to_list (sig_slot e) (funcs st)) = Inr (sg, r1)" and
    i: "style_indent st = Inr ind" and
    b: "func_body r1 ind (fst sg) = Inr (body, r2)" and
    h: "brace_line st (fst sg @ '' '' @ fst (snd sg) @ ''('' @ snd (snd sg) @ '')'') = Inr hd" and
    o: "out = hd @ body @ ''}\<newline>\<newline>''" and s: "st' = st\<lparr>rng := r2\<rparr>"
    by (elim bind_e_pairE bind_e_InrE Inr_pair_eqE) (rule that)
  from i obtain ent where ent: "STYLE_TABLE (style st) = Inr ent" "ind = indent ent"
    by (rule style_indent_obtain)
  from brace_line_open[OF h ent(1)] o
  have o': "out = (fst sg @ '' '' @ fst (snd sg) @ ''('' @ snd (snd sg) @ '')'') @ open_brace ent
                   @ body @ ''}\<newline>\<newline>''" by simp
  from rnd_choice_Inr[OF c] have "(fst sg, fst (snd sg), snd (snd sg)) \<in> set (funcs st)" by simp
  with ent b o' s that show ?thesis by blast
qed

lemma switch_case_count: "nl_free ind \<Longrightarrow> nl_free var \<Longrightarrow> count_nl (switch_case ind var i) = 3"
  by (simp add: switch_case_def str_nat_nl_free)

lemma switch_cases_count:
  "nl_free ind \<Longrightarrow> nl_free var \<Longrightarrow> count_nl (concat (map (switch_case ind var) xs)) = 3 * length xs"
  by (induction xs) (simp_all add: switch_case_count)

lemma gen_switch_shape:
  assumes "gen_switch st = Inr (out, st')"
  obtains var ent k r' where
    "STYLE_TABLE (style st) = Inr ent" "set var \<subseteq> set LETTERS" "2 \<le> k" "k \<le> 4"
    "out = (''switch ('' @ var @ '')'') @ open_brace ent
             @ concat (map (switch_case (indent ent) var) [0..<k])
             @ indent ent @ ''default:\<newline>'' @ indent ent @ indent ent @ ''break;\<newline>}\<newline>''"
    "st' = st\<lparr>rng := r'\<rparr>"
proof -
  from assms[unfolded gen_switch_def] obtain var r1 ind k r2 hd where
    v: "fresh_name (rng st) 6 = Inr (var, r1)" and i: "style_indent st = Inr ind" and
    k: "rnd_randint r1 2 4 = Inr (k, r2)" and
    h: "brace_line st (''switch ('' @ var @ '')'') = Inr hd" and
    o: "out = hd @ concat (map (switch_case ind var) [0..<k])
            @ ind @ ''default:\<newline>'' @ ind @ ind @ ''break;\<newline>}\<newline>''" and
    s: "st' = st\<lparr>rng := r2\<rparr>"
    by (elim bind_e_pairE bind_e_InrE Inr_pair_eqE) (rule that)
  from i obtain ent where ent: "STYLE_TABLE (style st) = Inr ent" "ind = indent ent"
    by (rule style_indent_obtain)
  from brace_line_open[OF h ent(1)] o ent(2)
  have "out = (''switch ('' @ var @ '')'') @ open_brace ent
             @ concat (map (switch_case (indent ent) var) [0..<k])
             @ indent ent @ ''default:\<newline>'' @ indent ent @ indent ent @ ''break;\<newline>}\<newline>''"
    by simp
  with ent(1) s fresh_name_Inr[OF v] rnd_randint_Inr[OF k] that show ?thesis by blast
qed

lemma gen_conditional_shape:
  assumes "gen_conditional st = Inr (out, st')"
  obtains var ent c r' where
    "STYLE_TABLE (style st) = Inr ent" "set var \<subseteq> set LETTERS"
    "out = (''if ('' @ var @ '' > '' @ str_nat c @ '')'') @ open_brace ent
             @ indent ent @ var @ '' = '' @ str_nat c @ '';\<newline>}\<newline>''
             @ ''else'' @ open_brace ent
             @ indent ent @ var @ '' += '' @ str_nat c @ '';\<newline>}\<newline>''"
    "st' = st\<lparr>rng := r'\<rparr>"
proof -
  from assms[unfolded gen_conditional_def] obtain var r1 c r2 ind hd1 hd2 where
    v: "fresh_name (rng st) 6 = Inr (var, r1)" and
    c: "rnd_randint r1 0 10 = Inr (c, r2)" and
    i: "style_indent st = Inr ind" and
    h1: "brace_line st (''if ('' @ var @ '' > '' @ str_nat c @ '')'') = Inr hd1" and
    h2: "brace_line st ''else'' = Inr hd2" and
    o: "out = hd1 @ ind @ var @ '' = '' @ str_nat c @ '';\<newline>}\<newline>''
            @ hd2 @ ind @ var @ '' += '' @ str_nat c @ '';\<newline>}\<newline>''" and
    s: "st' = st\<lparr>rng := r2\<rparr>"
    by (elim bind_e_pairE bind_e_InrE Inr_pair_eqE) (rule that)
  from i obtain ent where ent: "STYLE_TABLE (style st) = Inr ent" "ind = indent ent"
    by (rule style_indent_obtain)
  from brace_line_open[OF h1 ent(1)] brace_line_open[OF h2 ent(1)] o ent(2)
  have "out = (''if ('' @ var @ '' > '' @ str_nat c @ '')'') @ open_brace ent
             @ indent ent @ var @ '' = '' @ str_nat c @ '';\<newline>}\<newline>''
             @ ''else'' @ open_brace ent
             @ indent ent @ var @ '' += '' @ str_nat c @ '';\<newline>}\<newline>''"
    by simp
  with ent(1) s fresh_name_Inr[OF v] that show ?thesis by blast
qed

lemma gen_loop_shape:
  assumes "gen_loop st = Inr (out, st')"
  obtains var ent n r' where
    "STYLE_TABLE (style st) = Inr ent" "set var \<subseteq> set LETTERS"
    "out = (''for (int '' @ var @ '' = 0; '' @ var @ '' < '' @ str_nat n @ ''; ++'' @ var @ '')'')
             @ open_brace ent @ indent ent @ ''// loop body\<newline>}\<newline>''"
    "st' = st\<lparr>rng := r'\<rparr>"
proof -
  from assms[unfolded gen_loop_def] obtain var r1 ind n r2 hd where
    v: "fresh_name (rng st) 6 = Inr (var, r1)" and i: "style_indent st = Inr ind" and
    h: "brace_line st (''for (int '' @ var @ '' = 0; '' @ var @ '' < '' @ str_nat n
                              @ ''; ++'' @ var @ '')'') = Inr hd" and
    o: "out = hd @ ind @ ''// loop body\<newline>}\<newline>''" and
    s: "st' = st\<lparr>rng := r2\<rparr>"
    by (elim bind_e_pairE bind_e_InrE Inr_pair_eqE) (rule that)
  from i obtain ent where ent: "STYLE_TABLE (style st) = Inr ent" "ind = indent ent"
    by (rule style_indent_obtain)
  from brace_line_open[OF h ent(1)] o ent(2)
  have "out = (''for (int '' @ var @ '' = 0; '' @ var @ '' < '' @ str_nat n @ ''; ++'' @ var @ '')'')
             @ open_brace ent @ indent ent @ ''// loop body\<newline>}\<newline>''"
    by simp
  with ent(1) s fresh_name_Inr[OF v] that show ?thesis by blast
qed

lemma main_pick_Inr:
  assumes "main_pick e st r = Inr (pick, r')"
  shows "pick = None \<or> (\<exists>sg \<in> set (funcs st). pick = Some sg)"
proof (cases "funcs st = [] \<or> \<not> fst (rnd_random r) < 1 / 2")
  case True
  with assms show ?thesis by (auto simp: main_pick_def split_def split: if_splits)
next
  case False
  with assms have "bind_e (rnd_choice (snd (rnd_random r)) (set_to_list (sig_slot e) (funcs st)))
      (\<lambda>(sg, r2). Inr (Some sg, r2)) = Inr (pick, r')"
    by (simp add: main_pick_def split_def)
  then obtain sg r2 where
    c: "rnd_choice (snd (rnd_random r)) (set_to_list (sig_slot e) (funcs st)) = Inr (sg, r2)" and
    p: "pick = Some sg"
    by (elim bind_e_pairE Inr_pair_eqE) (rule that)
  from rnd_choice_Inr[OF c] p show ?thesis by simp
qed

lemma HELLO_count: "count_nl HELLO = 1"
  by (simp add: HELLO_def)

lemma zeros_nl_free: "nl_free (join '', '' (map (\<lambda>_. ''0'') xs))"
  by (rule nl_free_join) (simp_all add: list_all_iff)

lemma main_stmt_count:
  assumes "nl_free ind" "pick = None \<or> (\<exists>sg \<in> set (funcs st). pick = Some sg)" "wf_state st"
  shows "count_nl (main_stmt ind pick) = 1"
proof (cases pick)
  case None
  with assms(1) show ?thesis by (simp add: main_stmt_def HELLO_count)
next
  case (Some sg)
  obtain ret fname pstr where sg: "sg = (ret, fname, pstr)" by (cases sg)
  from Some assms(2) have "sg \<in> set (funcs st)" by auto
  with assms(3) have "sig_ok sg" by (simp add: wf_state_def list_all_iff)
  with sg have "nl_free fname" by (simp add: sig_ok_def wordy_nl_free)
  with Some sg assms(1) show ?thesis by (simp add: main_stmt_def zeros_nl_free)
qed

lemma main_body_Inr:
  "main_body e st ind r k = Inr (body, r') \<Longrightarrow>
     length body = k \<and>
     (\<forall>s \<in> set body. \<exists>pick. s = main_stmt ind pick \<and>
        (pick = None \<or> (\<exists>sg \<in> set (funcs st). pick = Some sg)))"
proof (induction k arbitrary: r body r')
  case 0
  then show ?case by simp
next
  case (Suc k)
  from Suc.prems[unfolded main_body.simps] obtain pick r1 rest r2 where
    p: "main_pick e st r = Inr (pick, r1)" and
    r: "main_body e st ind r1 k = Inr (rest, r2)" and
    b: "body = main_stmt ind pick # rest"
    by (elim bind_e_pairE Inr_pair_eqE) (rule that)
  from main_pick_Inr[OF p] Suc.IH[OF r] b show ?case by auto
qed

lemma main_body_count:
  assumes "main_body e st ind r k = Inr (body, r')" "nl_free ind" "wf_state st"
  shows "count_nl (concat body) = k"
proof -
  from main_body_Inr[OF assms(1)] have l: "length body = k" and
    a: "\<forall>s \<in> set body. \<exists>pick. s = main_stmt ind pick \<and>
        (pick = None \<or> (\<exists>sg \<in> set (funcs st). pick = Some sg))" by auto
  have one: "count_nl s = 1" if "s \<in> set body" for s
  proof -
    from bspec[OF a that] obtain pick where
      "s = main_stmt ind pick" "pick = None \<or> (\<exists>sg \<in> set (funcs st). pick = Some sg)"
      by (elim exE conjE)
    then show ?thesis using main_stmt_count[OF assms(2) _ assms(3)] by simp
  qed
  have "(\<And>s. s \<in> set xs \<Longrightarrow> count_nl s = 1) \<Longrightarrow> count_nl (concat xs) = length xs" for xs
    by (induction xs) simp_all
  from this[of body] one have "count_nl (concat body) = length body" by simp
  with l show ?thesis by simp
qed

lemma gen_main_written: "main_written st \<Longrightarrow> gen_main e st = Inr ([], st)"
  by (simp add: gen_main_def)

lemma gen_main_shape:
  assumes "gen_main e st = Inr (out, st')" "\<not> main_written st"
  obtains ent k r1 body r' where
    "STYLE_TABLE (style st) = Inr ent" "1 \<le> k" "k \<le> 3"
    "main_body e st (indent ent) r1 k = Inr (body, r')"
    "out = ''int main(void)'' @ open_brace ent
             @ concat (body @ [indent ent @ ''return 0;\<newline>'']) @ ''}\<newline>''"
    "st' = st\<lparr>rng := r', main_written := True\<rparr>"
proof -
  from assms have "bind_e (style_indent st) (\<lambda>ind.
        bind_e (rnd_randint (rng st) 1 3) (\<lambda>(k, r1).
        bind_e (main_body e st ind r1 k) (\<lambda>(body, r2).
        bind_e (brace_line st ''int main(void)'') (\<lambda>hd.
        Inr (hd @ concat (body @ [ind @ ''return 0;\<newline>'']) @ ''}\<newline>'',
             st\<lparr>rng := r2, main_written := True\<rparr>))))) = Inr (out, st')"
    by (simp add: gen_main_def)
  then obtain ind k r1 body r2 hd where
    i: "style_indent st = Inr ind" and
    k: "rnd_randint (rng st) 1 3 = Inr (k, r1)" and
    b: "main_body e st ind r1 k = Inr (body, r2)" and
    h: "brace_line st ''int main(void)'' = Inr hd" and
    o: "out = hd @ concat (body @ [ind @ ''return 0;\<newline>'']) @ ''}\<newline>''" and
    s: "st' = st\<lparr>rng := r2, main_written := True\<rparr>"
    by (elim bind_e_pairE bind_e_InrE Inr_pair_eqE) (rule that)
  from i obtain ent where ent: "STYLE_TABLE (style st) = Inr ent" "ind = indent ent"
    by (rule style_indent_obtain)
  from brace_line_open[OF h ent(1)] o ent(2)
  have "out = ''int main(void)'' @ open_brace ent
             @ concat (body @ [indent ent @ ''return 0;\<newline>'']) @ ''}\<newline>''" by simp
  with ent b s rnd_randint_Inr[OF k] that show ?thesis by blast
qed

lemma grows_refl [simp]: "grows st st"
  by (simp add: grows_def)

lemma grows_trans: "grows a b \<Longrightarrow> grows b c \<Longrightarrow> grows a c"
  by (auto simp: grows_def)

lemma grows_rng [simp]: "grows st (st'\<lparr>rng := r\<rparr>) = grows st st'"
  by (simp add: grows_def)

lemma grows_rng_left [simp]: "grows (st\<lparr>rng := r\<rparr>) st' = grows st st'"
  by (simp add: grows_def)

lemma registry_cases:
  assumes "REGISTRY e kind = Some gen"
  shows "(kind, gen) \<in> set
       [(''comment'', gen_comment), (''include'', gen_include),
        (''define_macro'', gen_define_macro), (''define_macro_f'', gen_define_macro_func),
        (''typedef'', gen_typedef), (''enum'', gen_enum), (''union'', gen_union),
        (''struct'', gen_struct), (''var_decl'', gen_var_decl e),
        (''func_decl'', gen_func_decl e), (''func_def'', gen_func_def e),
        (''switch'', gen_switch), (''conditional'', gen_conditional), (''loop'', gen_loop),
        (''main'', gen_main e)]"
  using assms unfolding REGISTRY_def by (rule map_of_SomeD)

lemma gen_comment_frame: "gen_comment st = Inr (out, st') \<Longrightarrow> grows st st' \<and> keeps st st'"
  by (erule gen_comment_shape) (simp add: grows_def keeps_def)

lemma gen_include_frame:
  "gen_include st = Inr (out, st') \<Longrightarrow> grows st st' \<and> main_written st' = main_written st"
  by (auto simp: grows_def dest!: gen_include_shape split: if_splits)

lemma gen_define_macro_frame:
  "gen_define_macro st = Inr (out, st') \<Longrightarrow> grows st st' \<and> keeps st st'"
  by (erule gen_define_macro_shape) (simp add: grows_def keeps_def)

lemma gen_define_macro_func_frame:
  "gen_define_macro_func st = Inr (out, st') \<Longrightarrow> grows st st' \<and> keeps st st'"
  by (erule gen_define_macro_func_shape) (simp add: grows_def keeps_def)

lemma gen_typedef_frame: "gen_typedef st = Inr (out, st') \<Longrightarrow> grows st st' \<and> keeps st st'"
  by (erule gen_typedef_shape) (auto simp: grows_def keeps_def)

lemma gen_enum_frame: "gen_enum st = Inr (out, st') \<Longrightarrow> grows st st' \<and> keeps st st'"
  by (erule gen_enum_shape) (auto simp: grows_def keeps_def)

lemma gen_union_frame: "gen_union st = Inr (out, st') \<Longrightarrow> grows st st' \<and> keeps st st'"
  by (erule gen_union_shape) (auto simp: grows_def keeps_def)

lemma gen_struct_frame: "gen_struct st = Inr (out, st') \<Longrightarrow> grows st st' \<and> keeps st st'"
  by (erule gen_struct_shape) (auto simp: grows_def keeps_def)

lemma gen_var_decl_frame: "gen_var_decl e st = Inr (out, st') \<Longrightarrow> grows st st' \<and> keeps st st'"
  by (erule gen_var_decl_shape) (simp add: grows_def keeps_def)

lemma gen_func_decl_frame: "gen_func_decl e st = Inr (out, st') \<Longrightarrow> grows st st' \<and> keeps st st'"
  by (erule gen_func_decl_shape) (auto simp: grows_def keeps_def)

lemma gen_func_def_frame:
  assumes "gen_func_def e st = Inr (out, st')"
  shows "grows st st' \<and> keeps st st'"
proof (cases "funcs st = []")
  case True
  with assms show ?thesis by (simp add: gen_func_def_empty keeps_def)
next
  case False
  from assms False show ?thesis
    by (rule gen_func_def_shape) (simp add: grows_def keeps_def)
qed

lemma gen_switch_frame: "gen_switch st = Inr (out, st') \<Longrightarrow> grows st st' \<and> keeps st st'"
  by (erule gen_switch_shape) (simp add: grows_def keeps_def)

lemma gen_conditional_frame: "gen_conditional st = Inr (out, st') \<Longrightarrow> grows st st' \<and> keeps st st'"
  by (erule gen_conditional_shape) (simp add: grows_def keeps_def)

lemma gen_loop_frame: "gen_loop st = Inr (out, st') \<Longrightarrow> grows st st' \<and> keeps st st'"
  by (erule gen_loop_shape) (simp add: grows_def keeps_def)

lemma gen_main_frame:
  assumes "gen_main e st = Inr (out, st')"
  shows "grows st st' \<and> headers st' = headers st"
proof (cases "main_written st")
  case True
  with assms show ?thesis by (simp add: gen_main_written)
next
  case False
  from assms False show ?thesis
    by (rule gen_main_shape) (simp add: grows_def)
qed

lemma registry_grows:
  assumes "REGISTRY e kind = Some gen" "gen st = Inr (out, st')"
  shows "grows st st' \<and> (kind \<noteq> ''include'' \<longrightarrow> headers st' = headers st)
         \<and> (kind \<noteq> ''main'' \<longrightarrow> main_written st' = main_written st)"
proof -
  from registry_cases[OF assms(1)] assms(2) show ?thesis
    apply (simp only: set_simps insert_iff empty_iff prod.inject)
    apply (elim disjE conjE FalseE)
    apply (simp_all only:)
    apply (auto dest!: gen_comment_frame gen_include_frame gen_define_macro_frame
        gen_define_macro_func_frame gen_typedef_frame gen_enum_frame gen_union_frame
        gen_struct_frame gen_var_decl_frame gen_func_decl_frame gen_func_def_frame
        gen_switch_frame gen_conditional_frame gen_loop_frame gen_main_frame simp: keeps_def)
    done
qed

section \<open>The loop\<close>

lemma assemble_rule:
  assumes run: "assemble e kinds ws target parts lines st = Some (Inr (parts', st'))"
    and init: "I parts lines st"
    and step: "\<And>kind gen r1 ps ls s snippet s2.
       \<lbrakk>I ps ls s; ls < target; rnd_choices (rng s) kinds ws = Inr (kind, r1);
        REGISTRY e kind = Some gen; gen (s\<lparr>rng := r1\<rparr>) = Inr (snippet, s2)\<rbrakk>
       \<Longrightarrow> (snippet \<noteq> [] \<longrightarrow> I (ps @ [snippet]) (ls + int (count_nl snippet)) s2)
         \<and> (snippet = [] \<longrightarrow> I ps ls s2)"
  shows "\<exists>lines'. I parts' lines' st' \<and> target \<le> lines'"
proof -
  define P where "P = (\<lambda>(e0::env) (k0::string list) (w0::rat list) (t0::int)
      (ps::string list) (ls::int) (s::state) (y :: error + string list \<times> state).
      \<forall>ps' s'. y = Inr (ps', s') \<longrightarrow> e0 = e \<longrightarrow> k0 = kinds \<longrightarrow> w0 = ws \<longrightarrow> t0 = target
          \<longrightarrow> I ps ls s \<longrightarrow> (\<exists>lines'. I ps' lines' s' \<and> target \<le> lines'))"
  have "P e kinds ws target parts lines st (Inr (parts', st'))"
  proof (rule assemble.raw_induct[where P = P, OF _ run], goal_cases)
    case (1 asm e0 k0 w0 t0 ps ls s y)
    show ?case
      unfolding P_def
    proof (intro allI impI)
      fix ps' s'
      assume y: "y = Inr (ps', s')" and eqs: "e0 = e" "k0 = kinds" "w0 = ws" "t0 = target"
        and inv: "I ps ls s"
      show "\<exists>lines'. I ps' lines' s' \<and> target \<le> lines'"
      proof (cases "ls < target")
        case False
        with 1(2) y eqs have "ps' = ps" "s' = s" by auto
        with inv False show ?thesis by auto
      next
        case True
        with 1(2) y eqs obtain kind r1 where c: "rnd_choices (rng s) kinds ws = Inr (kind, r1)"
          by (cases "rnd_choices (rng s) kinds ws") auto
        with True 1(2) y eqs obtain gen where g: "REGISTRY e kind = Some gen"
          by (cases "REGISTRY e kind") auto
        with c True 1(2) y eqs obtain snippet s2 where
          r: "gen (s\<lparr>rng := r1\<rparr>) = Inr (snippet, s2)"
          by (cases "gen (s\<lparr>rng := r1\<rparr>)") auto
        note st = step[OF inv True c g r]
        show ?thesis
        proof (cases "snippet = []")
          case e: True
          with c g r True 1(2) y eqs have "asm e kinds ws target ps ls s2 = Some (Inr (ps', s'))"
            by simp
          from 1(1)[OF this] st e show ?thesis by (simp add: P_def)
        next
          case ne: False
          with c g r True 1(2) y eqs
          have "asm e kinds ws target (ps @ [snippet]) (ls + int (count_nl snippet)) s2
                  = Some (Inr (ps', s'))"
            by simp
          from 1(1)[OF this] st ne show ?thesis by (simp add: P_def)
        qed
      qed
    qed
  qed
  with init show ?thesis by (simp add: P_def)
qed

lemma assemble_grows:
  assumes "assemble e kinds ws target parts lines st = Some (Inr (parts', st'))"
  shows "grows st st'"
proof -
  have "\<exists>lines'. (\<lambda>ps ls s. grows st s) parts' lines' st' \<and> target \<le> lines'"
  proof (rule assemble_rule[OF assms, where I = "\<lambda>ps ls s. grows st s"])
    show "grows st st" by simp
  next
    fix kind gen r1 ps ls s snippet s2
    assume "grows st s" "REGISTRY e kind = Some gen" "gen (s\<lparr>rng := r1\<rparr>) = Inr (snippet, s2)"
    with registry_grows[of e kind gen "s\<lparr>rng := r1\<rparr>" snippet s2] grows_trans[of st s s2]
    show "(snippet \<noteq> [] \<longrightarrow> grows st s2) \<and> (snippet = [] \<longrightarrow> grows st s2)"
      by simp
  qed
  then show ?thesis by simp
qed

section \<open>Evaluating the model on concrete streams\<close>

lemma stream_of_Nil [simp]: "stream_of [] n = 0"
  by (simp add: stream_of_def)

lemma stream_of_Cons_0 [simp]: "stream_of (x # xs) 0 = x"
  by (simp add: stream_of_def)

lemma stream_of_Cons_Suc [simp]: "stream_of (x # xs) (Suc n) = stream_of xs n"
  by (simp add: stream_of_def)

lemma stream_of_Cons_numeral [simp]:
  "stream_of (x # xs) (numeral k) = stream_of xs (pred_numeral k)"
  by (simp add: numeral_eq_Suc)

lemma fresh_name_numeral:
  "fresh_name r (numeral k) =
     bind_e (rnd_choice r LETTERS) (\<lambda>(c, r1).
     bind_e (fresh_name r1 (pred_numeral k)) (\<lambda>(cs, r2).
     Inr (c # cs, r2)))"
  by (simp add: numeral_eq_Suc)

lemma func_params_numeral:
  "func_params r extra (numeral k) =
     bind_e (choose_ctype r extra) (\<lambda>(t, r1).
     bind_e (fresh_name r1 6) (\<lambda>(nm, r2).
     bind_e (func_params r2 extra (pred_numeral k)) (\<lambda>(rest, r3).
     Inr ((t @ '' '' @ nm) # rest, r3))))"
  by (simp add: numeral_eq_Suc)

lemma struct_lines_numeral:
  "struct_lines r (numeral k) =
     bind_e (rnd_choice r BASE_CTYPES) (\<lambda>(t, r1).
     bind_e (rnd_randint r1 3 6) (\<lambda>(n, r2).
     bind_e (fresh_name r2 n) (\<lambda>(nm, r3).
     bind_e (struct_lines r3 (pred_numeral k)) (\<lambda>(rest, r4).
     Inr ((''    '' @ t @ '' '' @ nm @ '';'') # rest, r4)))))"
  by (simp add: numeral_eq_Suc)

lemma main_body_numeral:
  "main_body e st ind r (numeral k) =
     bind_e (main_pick e st r) (\<lambda>(pick, r1).
     bind_e (main_body e st ind r1 (pred_numeral k)) (\<lambda>(rest, r2).
     Inr (main_stmt ind pick # rest, r2)))"
  by (simp add: numeral_eq_Suc)

lemma sample_pool_numeral:
  "sample_pool r pool (numeral k) =
     (case randbelow r (length pool) of (j, r1) \<Rightarrow>
        (case sample_pool r1 (butlast (pool[j := last pool])) (pred_numeral k) of (rest, r2) \<Rightarrow>
           (pool ! j # rest, r2)))"
  by (simp add: numeral_eq_Suc)

lemmas rnd_eval = next_raw_def randbelow_def rnd_choice_def rnd_randint_def rnd_random_def
  rnd_uniform_2f_def rnd_sample_def rnd_choices_def accumulate_def bisect.simps
  fresh_name_numeral func_params_numeral struct_lines_numeral main_body_numeral
  sample_pool_numeral

lemmas text_eval = LETTERS_def UPPERS_def BASE_CTYPES_def HDRS_def HELLO_def PREAMBLE_def
  upper_def upper_char_def lower_char_def capitalize_def digit_def str_nat.simps decimal_2f_def
  endswith_star switch_case_def

lemmas unit_eval = gen_comment_def gen_include_def gen_define_macro_def
  gen_define_macro_func_def gen_typedef_def gen_enum_def gen_union_def gen_struct_def
  gen_var_decl_def gen_func_decl_def gen_func_def_def gen_switch_def gen_conditional_def
  gen_loop_def gen_main_def choose_ctype_def random_value_def var_init_def func_body_def
  main_pick_def main_stmt_def brace_line_def style_indent_def STYLE_TABLE_def STYLE_LIST_def
  set_add_def set_to_list_def initial_state_def Let_def

lemmas build_eval = build_c_def build_parts_def choose_style_def finish_def Random_def
  REGISTRY_def assemble.simps env0_def

section \<open>Well-formed states and fragments\<close>

lemma wf_state_rng [simp]: "wf_state (st\<lparr>rng := r\<rparr>) = wf_state st"
  by (simp add: wf_state_def)

lemma wf_state_main_written [simp]: "wf_state (st\<lparr>main_written := b\<rparr>) = wf_state st"
  by (simp add: wf_state_def)

lemma wf_state_headers [simp]: "wf_state (st\<lparr>headers := h\<rparr>) = wf_state st"
  by (simp add: wf_state_def)

lemma wf_state_structs [simp]: "wf_state (st\<lparr>structs := h\<rparr>) = wf_state st"
  by (simp add: wf_state_def)

lemma list_all_set_add [simp]: "list_all P (set_add x xs) \<longleftrightarrow> P x \<and> list_all P xs"
  by (auto simp: set_add_def list_all_iff)

lemma wf_state_typedefs:
  "wf_state st \<Longrightarrow> wordy a \<Longrightarrow> wf_state (st\<lparr>typedefs := set_add a (typedefs st)\<rparr>)"
  by (simp add: wf_state_def)

lemma wf_state_funcs:
  "wf_state st \<Longrightarrow> sig_ok sg \<Longrightarrow> wf_state (st\<lparr>funcs := set_add sg (funcs st)\<rparr>)"
  by (simp add: wf_state_def)

lemma wf_initial [simp]: "wf_state (initial_state r sty)"
  by (simp add: wf_state_def initial_state_def)

lemma base_wordy: "b \<in> set BASE_CTYPES \<Longrightarrow> wordy b"
  by (auto simp: BASE_CTYPES_def)

lemma ctype_wordy:
  assumes "\<exists>b \<in> set BASE_CTYPES \<union> set tds. c = b \<or> c = b @ ''*''" "list_all wordy tds"
  shows "wordy c"
proof -
  from assms(1) obtain b where b: "b \<in> set BASE_CTYPES \<union> set tds" "c = b \<or> c = b @ ''*''"
    by blast
  from b(1) assms(2) have "wordy b" by (auto simp: base_wordy list_all_iff)
  with b(2) show ?thesis by auto
qed

lemma hdr_nl_free: "h \<in> set HDRS \<Longrightarrow> nl_free h"
  by (auto simp: HDRS_def)

lemma not_main_word:
  assumes "wordy c" "wordy n" "length n = 6"
  shows "\<not> prefix ''int main(void)'' (c @ '' '' @ n @ rest)"
proof
  assume p: "prefix ''int main(void)'' (c @ '' '' @ n @ rest)"
  from assms(3) obtain n1 n2 n3 n4 n5 n6 where n: "n = [n1, n2, n3, n4, n5, n6]"
    by (auto simp: length_Suc_conv numeral_eq_Suc)
  consider "c = []" | c1 where "c = [c1]" | c1 c2 where "c = [c1, c2]"
    | c1 c2 c3 where "c = [c1, c2, c3]" | c1 c2 c3 c4 cs where "c = c1 # c2 # c3 # c4 # cs"
    by (metis list.exhaust)
  then show False
  proof cases
    case 1
    with p show False by simp
  next
    case 2
    with p show False by simp
  next
    case 3
    with p show False by simp
  next
    case 4
    with p n assms(2) show False by simp
  next
    case 5
    with p assms(1) show False by simp
  qed
qed

lemma gen_comment_wf:
  assumes "gen_comment st = Inr (out, st')" "wf_state st"
  shows "wf_state st' \<and> fragment_ok out"
  using assms(1)
proof (rule gen_comment_shape)
  fix tag nm r'
  assume "out = tag @ '': '' @ nm @ ''\<newline>''" "st' = st\<lparr>rng := r'\<rparr>" "set nm \<subseteq> set LETTERS"
    "tag \<in> {''// TODO'', ''// FIXME'', ''// NOTE'', ''// HACK''}"
  with assms(2) show ?thesis
    by (auto simp: fragment_ok_def is_main_fragment_def lower_nl_free)
qed

lemma gen_include_wf:
  assumes "gen_include st = Inr (out, st')" "wf_state st"
  shows "wf_state st' \<and> fragment_ok out"
proof -
  from gen_include_shape[OF assms(1)] obtain h r' where
    h: "h \<in> set HDRS" "out = ''#include '' @ h @ ''\<newline>''" and
    s: "if set HDRS \<subseteq> set (headers st) then st' = st\<lparr>rng := r', headers := [h]\<rparr>
        else h \<notin> set (headers st) \<and> st' = st\<lparr>rng := r', headers := headers st @ [h]\<rparr>"
    by blast
  from s assms(2) have "wf_state st'" by (auto split: if_splits)
  with h show ?thesis by (simp add: fragment_ok_def is_main_fragment_def hdr_nl_free)
qed

lemma gen_define_macro_wf:
  assumes "gen_define_macro st = Inr (out, st')" "wf_state st"
  shows "wf_state st' \<and> fragment_ok out"
  using assms(1)
proof (rule gen_define_macro_shape)
  fix nm v r'
  assume "out = ''#define '' @ upper nm @ '' '' @ str_nat v @ ''\<newline>''" "st' = st\<lparr>rng := r'\<rparr>"
    "set nm \<subseteq> set LETTERS"
  with assms(2) show ?thesis
    by (simp add: fragment_ok_def is_main_fragment_def alpha_nl_free alpha_upper lower_alpha
        str_nat_nl_free)
qed

lemma gen_define_macro_func_wf:
  assumes "gen_define_macro_func st = Inr (out, st')" "wf_state st"
  shows "wf_state st' \<and> fragment_ok out"
  using assms(1)
proof (rule gen_define_macro_func_shape)
  fix nm param r'
  assume "out = ''#define '' @ upper nm @ ''('' @ param @ '') (('' @ param @ '') * ('' @ param
            @ ''))\<newline>''" "st' = st\<lparr>rng := r'\<rparr>"
    "set nm \<subseteq> set LETTERS" "set param \<subseteq> set LETTERS"
  with assms(2) show ?thesis
    by (simp add: fragment_ok_def is_main_fragment_def alpha_nl_free alpha_upper lower_alpha
        lower_nl_free)
qed

lemma gen_typedef_wf:
  assumes "gen_typedef st = Inr (out, st')" "wf_state st"
  shows "wf_state st' \<and> fragment_ok out"
  using assms(1)
proof (rule gen_typedef_shape)
  fix al base r'
  assume "out = ''typedef '' @ base @ '' '' @ al @ '';\<newline>''"
    "st' = st\<lparr>rng := r', typedefs := set_add al (typedefs st)\<rparr>"
    "set al \<subseteq> set LETTERS" "base \<in> set BASE_CTYPES"
  with assms(2) show ?thesis
    by (simp add: fragment_ok_def is_main_fragment_def lower_nl_free lower_wordy
        wf_state_def base_wordy wordy_nl_free)
qed

lemma gen_enum_wf:
  assumes "gen_enum st = Inr (out, st')" "wf_state st"
  shows "wf_state st' \<and> fragment_ok out"
  using assms(1)
proof (rule gen_enum_shape)
  fix name items r'
  assume "out = ''typedef enum { '' @ items @ '' } '' @ name @ '';\<newline>''"
    "st' = st\<lparr>rng := r', typedefs := set_add name (typedefs st)\<rparr>"
    "alpha name" "nl_free items"
  with assms(2) show ?thesis
    by (simp add: fragment_ok_def is_main_fragment_def alpha_nl_free alpha_wordy
        wf_state_def)
qed

lemma gen_union_wf:
  assumes "gen_union st = Inr (out, st')" "wf_state st"
  shows "wf_state st' \<and> fragment_ok out"
  using assms(1)
proof (rule gen_union_shape)
  fix name fields r'
  assume "out = ''typedef union '' @ name @ '' {\<newline>'' @ join ''\<newline>'' fields
             @ ''\<newline>} '' @ name @ '';\<newline>''"
    "st' = st\<lparr>rng := r', structs := set_add name (structs st)\<rparr>"
    "alpha name" "length fields = 2" "list_all nl_free fields"
  with assms(2) show ?thesis
    by (simp add: fragment_ok_def is_main_fragment_def alpha_nl_free count_nl_join_nl)
qed

lemma gen_struct_wf:
  assumes "gen_struct st = Inr (out, st')" "wf_state st"
  shows "wf_state st' \<and> fragment_ok out"
  using assms(1)
proof (rule gen_struct_shape)
  fix name ls r'
  assume "out = ''typedef struct '' @ name @ '' {\<newline>'' @ join ''\<newline>'' ls
             @ ''\<newline>} '' @ name @ '';\<newline>''"
    "st' = st\<lparr>rng := r', structs := set_add name (structs st)\<rparr>"
    "alpha name" "1 \<le> length ls" "length ls \<le> 3" "list_all nl_free ls"
  with assms(2) show ?thesis
    by (simp add: fragment_ok_def is_main_fragment_def alpha_nl_free count_nl_join_nl)
qed

lemma init_nl_free:
  assumes "init = [] \<or> (\<not> endswith ctype ''*'' \<and>
           (\<exists>t \<in> set BASE_CTYPES. \<exists>v. literal_for t v \<and> init = '' = '' @ v))"
  shows "nl_free init"
  using assms literal_for_base_nl_free by auto

lemma gen_var_decl_wf:
  assumes "gen_var_decl e st = Inr (out, st')" "wf_state st"
  shows "wf_state st' \<and> fragment_ok out"
  using assms(1)
proof (rule gen_var_decl_shape)
  fix ctype name init r'
  assume o: "out = ctype @ '' '' @ name @ init @ '';\<newline>''" and s: "st' = st\<lparr>rng := r'\<rparr>"
    and c: "\<exists>b \<in> set BASE_CTYPES \<union> set (typedefs st). ctype = b \<or> ctype = b @ ''*''"
    and n: "set name \<subseteq> set LETTERS" "length name = 6"
    and i: "init = [] \<or> (\<not> endswith ctype ''*'' \<and>
           (\<exists>t \<in> set BASE_CTYPES. \<exists>v. literal_for t v \<and> init = '' = '' @ v))"
  from c assms(2) have w: "wordy ctype" by (auto intro: ctype_wordy simp: wf_state_def)
  from n have wn: "wordy name" by (simp add: lower_wordy)
  from not_main_word[OF w wn n(2)] o have "\<not> is_main_fragment out"
    by (simp add: is_main_fragment_def)
  with o s w wn init_nl_free[OF i] assms(2) show ?thesis
    by (simp add: fragment_ok_def wordy_nl_free)
qed

lemma gen_func_decl_wf:
  assumes "gen_func_decl e st = Inr (out, st')" "wf_state st"
  shows "wf_state st' \<and> fragment_ok out"
  using assms(1)
proof (rule gen_func_decl_shape)
  fix ret name ps r'
  assume o: "out = ret @ '' '' @ name @ ''('' @ ps @ '');\<newline>''"
    and s: "st' = st\<lparr>rng := r', funcs := set_add (ret, name, ps) (funcs st)\<rparr>"
    and c: "\<exists>b \<in> set BASE_CTYPES \<union> set (typedefs st). ret = b \<or> ret = b @ ''*''"
    and n: "set name \<subseteq> set LETTERS" "length name = 6"
    and p: "list_all wordy (typedefs st) \<Longrightarrow> nl_free ps"
  from c assms(2) have w: "wordy ret" by (auto intro: ctype_wordy simp: wf_state_def)
  from n have wn: "wordy name" by (simp add: lower_wordy)
  from p assms(2) have np: "nl_free ps" by (simp add: wf_state_def)
  from w wn n(2) np have "sig_ok (ret, name, ps)" by (simp add: sig_ok_def)
  with assms(2) s have "wf_state st'" by (simp add: wf_state_def)
  moreover from not_main_word[OF w wn n(2)] o have "\<not> is_main_fragment out"
    by (simp add: is_main_fragment_def)
  ultimately show ?thesis using o w wn np
    by (simp add: fragment_ok_def wordy_nl_free)
qed

lemma gen_func_def_wf:
  assumes "gen_func_def e st = Inr (out, st')" "wf_state st"
  shows "wf_state st' \<and> (out = [] \<or> fragment_ok out)"
proof (cases "funcs st = []")
  case True
  with assms show ?thesis by (simp add: gen_func_def_empty)
next
  case False
  from assms(1) False show ?thesis
  proof (rule gen_func_def_shape)
    fix ret name ps ent body r0 r'
    assume m: "(ret, name, ps) \<in> set (funcs st)" and t: "STYLE_TABLE (style st) = Inr ent"
      and b: "func_body r0 (indent ent) ret = Inr (body, r')"
      and o: "out = (ret @ '' '' @ name @ ''('' @ ps @ '')'') @ open_brace ent @ body @ ''}\<newline>\<newline>''"
      and s: "st' = st\<lparr>rng := r'\<rparr>"
    from m assms(2) have "sig_ok (ret, name, ps)" by (auto simp: wf_state_def list_all_iff)
    then have w: "wordy ret" "wordy name" "length name = 6" "nl_free ps"
      by (simp_all add: sig_ok_def)
    from func_body_count[OF b style_indent_nl_free[OF t]] have cb: "count_nl body = 1" .
    from not_main_word[OF w(1) w(2) w(3)] o have nm: "\<not> is_main_fragment out"
      by (simp add: is_main_fragment_def)
    from o w cb open_brace_count[of ent] have "1 \<le> count_nl out \<and> count_nl out \<le> 17"
      by (simp add: wordy_nl_free)
    with nm s assms(2) show ?thesis by (simp add: fragment_ok_def)
  qed
qed

lemma gen_switch_wf:
  assumes "gen_switch st = Inr (out, st')" "wf_state st"
  shows "wf_state st' \<and> fragment_ok out"
  using assms(1)
proof (rule gen_switch_shape)
  fix var ent k r'
  assume t: "STYLE_TABLE (style st) = Inr ent" and v: "set var \<subseteq> set LETTERS"
    and k: "2 \<le> k" "k \<le> 4"
    and o: "out = (''switch ('' @ var @ '')'') @ open_brace ent
             @ concat (map (switch_case (indent ent) var) [0..<k])
             @ indent ent @ ''default:\<newline>'' @ indent ent @ indent ent @ ''break;\<newline>}\<newline>''"
    and s: "st' = st\<lparr>rng := r'\<rparr>"
  note i = style_indent_nl_free[OF t]
  from o i v k open_brace_count[of ent]
  have "1 \<le> count_nl out \<and> count_nl out \<le> 17"
    by (simp add: switch_cases_count lower_nl_free)
  moreover from o have "\<not> is_main_fragment out" by (simp add: is_main_fragment_def)
  ultimately show ?thesis using s assms(2) by (simp add: fragment_ok_def)
qed

lemma gen_conditional_wf:
  assumes "gen_conditional st = Inr (out, st')" "wf_state st"
  shows "wf_state st' \<and> fragment_ok out"
  using assms(1)
proof (rule gen_conditional_shape)
  fix var ent c r'
  assume t: "STYLE_TABLE (style st) = Inr ent" and v: "set var \<subseteq> set LETTERS"
    and o: "out = (''if ('' @ var @ '' > '' @ str_nat c @ '')'') @ open_brace ent
             @ indent ent @ var @ '' = '' @ str_nat c @ '';\<newline>}\<newline>''
             @ ''else'' @ open_brace ent
             @ indent ent @ var @ '' += '' @ str_nat c @ '';\<newline>}\<newline>''"
    and s: "st' = st\<lparr>rng := r'\<rparr>"
  note i = style_indent_nl_free[OF t]
  from o i v open_brace_count[of ent]
  have "1 \<le> count_nl out \<and> count_nl out \<le> 17"
    by (simp add: lower_nl_free str_nat_nl_free)
  moreover from o have "\<not> is_main_fragment out" by (simp add: is_main_fragment_def)
  ultimately show ?thesis using s assms(2) by (simp add: fragment_ok_def)
qed

lemma gen_loop_wf:
  assumes "gen_loop st = Inr (out, st')" "wf_state st"
  shows "wf_state st' \<and> fragment_ok out"
  using assms(1)
proof (rule gen_loop_shape)
  fix var ent n r'
  assume t: "STYLE_TABLE (style st) = Inr ent" and v: "set var \<subseteq> set LETTERS"
    and o: "out = (''for (int '' @ var @ '' = 0; '' @ var @ '' < '' @ str_nat n @ ''; ++'' @ var @ '')'')
             @ open_brace ent @ indent ent @ ''// loop body\<newline>}\<newline>''"
    and s: "st' = st\<lparr>rng := r'\<rparr>"
  note i = style_indent_nl_free[OF t]
  from o i v open_brace_count[of ent]
  have "1 \<le> count_nl out \<and> count_nl out \<le> 17"
    by (simp add: lower_nl_free str_nat_nl_free)
  moreover from o have "\<not> is_main_fragment out" by (simp add: is_main_fragment_def)
  ultimately show ?thesis using s assms(2) by (simp add: fragment_ok_def)
qed

lemma gen_main_wf:
  assumes "gen_main e st = Inr (out, st')" "wf_state st" "\<not> main_written st"
  shows "wf_state st' \<and> main_written st' \<and> is_main_fragment out \<and>
         1 \<le> count_nl out \<and> count_nl out \<le> 7"
  using assms(1) assms(3)
proof (rule gen_main_shape)
  fix ent k r1 body r'
  assume t: "STYLE_TABLE (style st) = Inr ent" and k: "1 \<le> k" "k \<le> 3"
    and b: "main_body e st (indent ent) r1 k = Inr (body, r')"
    and o: "out = ''int main(void)'' @ open_brace ent
             @ concat (body @ [indent ent @ ''return 0;\<newline>'']) @ ''}\<newline>''"
    and s: "st' = st\<lparr>rng := r', main_written := True\<rparr>"
  note i = style_indent_nl_free[OF t]
  from main_body_count[OF b i assms(2)] have "count_nl (concat body) = k" .
  with o i k open_brace_count[of ent] have "1 \<le> count_nl out \<and> count_nl out \<le> 7"
    by simp
  moreover from o have "is_main_fragment out" by (simp add: is_main_fragment_def)
  ultimately show ?thesis using s assms(2) by simp
qed

lemma registry_wf:
  assumes reg: "REGISTRY e kind = Some gen" and run: "gen st = Inr (out, st')"
    and wf: "wf_state st"
  shows "wf_state st' \<and>
         (kind \<noteq> ''main'' \<longrightarrow> (out = [] \<or> fragment_ok out) \<and> main_written st' = main_written st) \<and>
         (kind = ''main'' \<longrightarrow>
            (if main_written st then out = [] \<and> main_written st'
             else main_written st' \<and> is_main_fragment out \<and> 1 \<le> count_nl out \<and> count_nl out \<le> 7))"
proof -
  from registry_grows[OF reg run]
  have mw: "kind \<noteq> ''main'' \<longrightarrow> main_written st' = main_written st" by simp
  have main: "wf_state st' \<and>
       (if main_written st then out = [] \<and> main_written st'
        else main_written st' \<and> is_main_fragment out \<and> 1 \<le> count_nl out \<and> count_nl out \<le> 7)"
    if g: "gen_main e st = Inr (out, st')"
  proof (cases "main_written st")
    case True
    with g wf show ?thesis by (simp add: gen_main_written)
  next
    case False
    with gen_main_wf[OF g wf False] show ?thesis by simp
  qed
  note units = gen_comment_wf[OF _ wf] gen_include_wf[OF _ wf] gen_define_macro_wf[OF _ wf]
    gen_define_macro_func_wf[OF _ wf] gen_typedef_wf[OF _ wf] gen_enum_wf[OF _ wf]
    gen_union_wf[OF _ wf] gen_struct_wf[OF _ wf] gen_var_decl_wf[OF _ wf]
    gen_func_decl_wf[OF _ wf] gen_func_def_wf[OF _ wf] gen_switch_wf[OF _ wf]
    gen_conditional_wf[OF _ wf] gen_loop_wf[OF _ wf]
  from registry_cases[OF reg] run mw show ?thesis
    apply (simp only: set_simps insert_iff empty_iff prod.inject)
    apply (elim disjE conjE FalseE)
    apply (simp_all only:)
    apply (auto dest!: units main)
    done
qed

section \<open>Whole runs\<close>

lemma accumulate_from_length [simp]: "length (accumulate_from a ws) = length ws"
  by (induction ws arbitrary: a) simp_all

lemma accumulate_from_Nil [simp]: "accumulate_from a ws = [] \<longleftrightarrow> ws = []"
  by (cases ws) simp_all


lemma choose_style_total: "\<exists>sty r1. choose_style r sel = Inr (sty, r1)"
  by (simp add: choose_style_def rnd_choice_def STYLE_LIST_def case_prod_beta)

lemma count_nl_PREAMBLE: "count_nl PREAMBLE = 2"
  by (simp add: PREAMBLE_def)

lemma PREAMBLE_not_main: "\<not> is_main_fragment PREAMBLE"
  by (simp add: PREAMBLE_def is_main_fragment_def)

lemma build_parts_Inr:
  assumes "build_parts e cfg = Some (Inr ps)"
  obtains sty r1 ps0 st0 where
    "choose_style (Random e (seed cfg)) (cfg_style cfg) = Inr (sty, r1)"
    "weights cfg \<noteq> []"
    "assemble e (map fst (weights cfg)) (map snd (weights cfg)) (loc cfg) [PREAMBLE] 2
       (initial_state r1 sty) = Some (Inr (ps0, st0))"
    "finish e (ps0, st0) = Inr ps"
proof -
  obtain sty r1 where c: "choose_style (Random e (seed cfg)) (cfg_style cfg) = Inr (sty, r1)"
    using choose_style_total by blast
  from assms c have w: "weights cfg \<noteq> []"
    by (auto simp: build_parts_def split: if_splits)
  let ?a = "assemble e (map fst (weights cfg)) (map snd (weights cfg)) (loc cfg) [PREAMBLE] 2
       (initial_state r1 sty)"
  from assms c w have r: "(case ?a of None \<Rightarrow> None | Some (Inl err) \<Rightarrow> Some (Inl err)
             | Some (Inr ps) \<Rightarrow> Some (finish e ps)) = Some (Inr ps)"
    by (simp add: build_parts_def count_nl_PREAMBLE)
  then obtain p where a: "?a = Some (Inr p)" and f: "finish e p = Inr ps"
    by (auto split: option.splits sum.splits)
  obtain ps0 st0 where p: "p = (ps0, st0)" by (cases p)
  from c w a f p that show ?thesis by blast
qed

lemma build_c_Inr:
  assumes "build_c e cfg = Some (Inr txt)"
  obtains ps where "build_parts e cfg = Some (Inr ps)" "txt = concat ps"
proof -
  from assms obtain x where x: "build_parts e cfg = Some x" "map_sum id concat x = Inr txt"
    by (auto simp: build_c_def)
  then obtain ps where "x = Inr ps" "txt = concat ps" by (cases x) auto
  with x that show ?thesis by blast
qed

lemma finish_Inr:
  assumes "finish e (ps0, st0) = Inr ps"
  shows "(main_written st0 \<and> ps = ps0) \<or>
         (\<not> main_written st0 \<and> (\<exists>m st1. gen_main e st0 = Inr (m, st1) \<and> ps = ps0 @ [m]))"
proof (cases "main_written st0")
  case True
  with assms show ?thesis by (simp add: finish_def)
next
  case False
  with assms have "bind_e (gen_main e st0) (\<lambda>(snippet, st'). Inr (ps0 @ [snippet])) = Inr ps"
    by (simp add: finish_def)
  then obtain m st1 where "gen_main e st0 = Inr (m, st1)" "Inr (ps0 @ [m]) = (Inr ps :: error + string list)"
    by (rule bind_e_pairE)
  with False show ?thesis by auto
qed

lemma assemble_main_count:
  assumes run: "assemble e kinds ws target parts lines st = Some (Inr (ps', s'))"
    and wf: "wf_state st"
    and cnt: "length (filter is_main_fragment parts) = (if main_written st then 1 else 0)"
  shows "wf_state s' \<and> length (filter is_main_fragment ps') = (if main_written s' then 1 else 0)"
proof -
  let ?I = "\<lambda>ps (ls::int) s. wf_state s \<and>
              length (filter is_main_fragment ps) = (if main_written s then 1 else 0)"
  have "\<exists>lines'. ?I ps' lines' s' \<and> target \<le> lines'"
  proof (rule assemble_rule[OF run, where I = ?I])
    from wf cnt show "?I parts lines st" by simp
  next
    fix kind gen r1 ps ls s snippet s2
    assume inv: "?I ps ls s" and reg: "REGISTRY e kind = Some gen"
      and g: "gen (s\<lparr>rng := r1\<rparr>) = Inr (snippet, s2)"
    from inv have wf': "wf_state (s\<lparr>rng := r1\<rparr>)" by simp
    note rw = registry_wf[OF reg g wf']
    show "(snippet \<noteq> [] \<longrightarrow> ?I (ps @ [snippet]) (ls + int (count_nl snippet)) s2)
         \<and> (snippet = [] \<longrightarrow> ?I ps ls s2)"
    proof (cases "kind = ''main''")
      case True
      with rw inv show ?thesis by (auto simp: is_main_fragment_def split: if_splits)
    next
      case False
      with rw inv show ?thesis by (auto simp: fragment_ok_def)
    qed
  qed
  then show ?thesis by blast
qed

lemma assemble_lines:
  assumes run: "assemble e kinds ws target parts lines st = Some (Inr (ps', s'))"
    and wf: "wf_state st"
    and l: "lines = int (count_nl (concat parts))" "lines \<le> max target 2 + 16"
  shows "wf_state s' \<and> target \<le> int (count_nl (concat ps')) \<and>
         int (count_nl (concat ps')) \<le> max target 2 + 16"
proof -
  let ?I = "\<lambda>ps (ls::int) s. wf_state s \<and> ls = int (count_nl (concat ps)) \<and>
              ls \<le> max target 2 + 16"
  have "\<exists>lines'. ?I ps' lines' s' \<and> target \<le> lines'"
  proof (rule assemble_rule[OF run, where I = ?I])
    from wf l show "?I parts lines st" by simp
  next
    fix kind gen r1 ps ls s snippet s2
    assume inv: "?I ps ls s" and lt: "ls < target" and reg: "REGISTRY e kind = Some gen"
      and g: "gen (s\<lparr>rng := r1\<rparr>) = Inr (snippet, s2)"
    from inv have wf': "wf_state (s\<lparr>rng := r1\<rparr>)" by simp
    note rw = registry_wf[OF reg g wf']
    have c: "count_nl snippet \<le> 17"
    proof (cases "kind = ''main''")
      case True
      with rw show ?thesis by (auto split: if_splits)
    next
      case False
      with rw show ?thesis by (auto simp: fragment_ok_def)
    qed
    from rw have w2: "wf_state s2" by simp
    from inv lt c w2
    show "(snippet \<noteq> [] \<longrightarrow> ?I (ps @ [snippet]) (ls + int (count_nl snippet)) s2)
         \<and> (snippet = [] \<longrightarrow> ?I ps ls s2)"
      by auto
  qed
  then show ?thesis by auto
qed

text \<open>Totality of the helpers and of the units: none of them raises when the style of the
  state is one of the table.\<close>

lemma isl_bind_e [simp]: "isl (bind_e m f) = (isl m \<or> isl (f (projr m)))"
  by (cases m) simp_all


lemma isl_rnd_choice [simp]: "isl (rnd_choice r xs) = (xs = [])"
  by (simp add: rnd_choice_def split_beta)

lemma isl_rnd_randint [simp]: "isl (rnd_randint r a b) = (b < a)"
  by (simp add: rnd_randint_def split_beta)

lemma LETTERS_not_Nil [simp]: "LETTERS \<noteq> []"
  by (simp add: LETTERS_def)

lemma BASE_CTYPES_not_Nil [simp]: "BASE_CTYPES \<noteq> []"
  by (simp add: BASE_CTYPES_def)


lemma isl_fresh_name [simp]: "\<not> isl (fresh_name r n)"
  by (induction n arbitrary: r) (simp_all add: split_beta)

lemma isl_choose_ctype [simp]: "\<not> isl (choose_ctype r extra)"
  by (simp add: choose_ctype_def split_beta)

lemma isl_random_value [simp]: "\<not> isl (random_value r t)"
  by (simp add: random_value_def split_beta)

lemma isl_var_init [simp]: "\<not> isl (var_init r t)"
  by (simp add: var_init_def split_beta)

lemma isl_union_fields [simp]: "\<not> isl (union_fields r ts)"
  by (induction ts arbitrary: r) (simp_all add: split_beta)

lemma isl_struct_lines [simp]: "\<not> isl (struct_lines r k)"
  by (induction k arbitrary: r) (simp_all add: split_beta)

lemma isl_func_params [simp]: "\<not> isl (func_params r extra k)"
  by (induction k arbitrary: r) (simp_all add: split_beta)

lemma isl_rnd_sample [simp]: "isl (rnd_sample r xs k) = (length xs < k)"
  by (simp add: rnd_sample_def)

lemma isl_func_body [simp]: "\<not> isl (func_body r ind ret)"
  by (simp add: func_body_def split_beta)




lemma isl_main_pick [simp]: "\<not> isl (main_pick e st r)"
  by (simp add: main_pick_def split_beta)

lemma isl_main_body [simp]: "\<not> isl (main_body e st ind r k)"
  by (induction k arbitrary: r) (simp_all add: split_beta)
















section \<open>The weighted draw and the end of the loop\<close>







lemma fragment_ok_not_Nil: "fragment_ok out \<Longrightarrow> out \<noteq> []"
  by (auto simp: fragment_ok_def)




section \<open>Exceptions of a run\<close>










section \<open>Runs that end and runs that do not\<close>





section \<open>Termination of the loop\<close>




section \<open>Determinism and the order of sets\<close>

text \<open>
  C2. The output of \<^verbatim>\<open>build_c\<close> is a function of the configuration, the stream of the
  seeded generator and the order in which \<^verbatim>\<open>list(state["typedefs"])\<close> and
  \<^verbatim>\<open>list(state["funcs"])\<close> enumerate the sets. That order follows the string hashes,
  which differ from one interpreter process to the next. Two runs with the same
  configuration, the same seed and the same stream, which differ only in the order of two
  aliases, produce different texts: the draw \<^verbatim>\<open>rng.choice(BASE_CTYPES + extra)\<close> yields
  the same index and another alias.
\<close>

theorem output_depends_on_set_order:
  "build_c (order_env (\<lambda>s. 0)) order_cfg
     = Some (Inr (''/* Auto-generated C code */\<newline>\<newline>''
          @ ''typedef int aaa;\<newline>''
          @ ''typedef int bbb;\<newline>''
          @ ''aaa cccccc;\<newline>''
          @ ''int main(void) {\<newline>    '' @ HELLO @ ''    return 0;\<newline>}\<newline>'')) \<and>
   build_c (order_env (\<lambda>s. if s = ''aaa'' then 1 else 0)) order_cfg
     = Some (Inr (''/* Auto-generated C code */\<newline>\<newline>''
          @ ''typedef int aaa;\<newline>''
          @ ''typedef int bbb;\<newline>''
          @ ''bbb cccccc;\<newline>''
          @ ''int main(void) {\<newline>    '' @ HELLO @ ''    return 0;\<newline>}\<newline>'')) \<and>
   build_c (order_env (\<lambda>s. 0)) order_cfg
     \<noteq> build_c (order_env (\<lambda>s. if s = ''aaa'' then 1 else 0)) order_cfg"
proof -
  have a: "build_c (order_env (\<lambda>s. 0)) order_cfg
     = Some (Inr (''/* Auto-generated C code */\<newline>\<newline>''
          @ ''typedef int aaa;\<newline>''
          @ ''typedef int bbb;\<newline>''
          @ ''aaa cccccc;\<newline>''
          @ ''int main(void) {\<newline>    '' @ HELLO @ ''    return 0;\<newline>}\<newline>''))"
    by (simp add: build_eval unit_eval rnd_eval text_eval order_env_def order_cfg_def
        order_stream_def)
  have b: "build_c (order_env (\<lambda>s. if s = ''aaa'' then 1 else 0)) order_cfg
     = Some (Inr (''/* Auto-generated C code */\<newline>\<newline>''
          @ ''typedef int aaa;\<newline>''
          @ ''typedef int bbb;\<newline>''
          @ ''bbb cccccc;\<newline>''
          @ ''int main(void) {\<newline>    '' @ HELLO @ ''    return 0;\<newline>}\<newline>''))"
    by (simp add: build_eval unit_eval rnd_eval text_eval order_env_def order_cfg_def
        order_stream_def)
  have "build_c (order_env (\<lambda>s. 0)) order_cfg
     \<noteq> build_c (order_env (\<lambda>s. if s = ''aaa'' then 1 else 0)) order_cfg"
    unfolding a b by simp
  with a b show ?thesis by blast
qed

section \<open>Size of the output\<close>

lemma big_run: "build_c big_env big_cfg = Some (Inr big_text)"
  by (simp add: build_eval unit_eval rnd_eval text_eval big_env_def big_cfg_def big_text_def
      upt_rec[of _ "numeral n" for n] upt_rec[of _ "Suc n" for n])

lemma big_text_count: "count_nl big_text = 26"
  by (simp add: big_text_def HELLO_def)

text \<open>
  C3 as stated fails in its upper bound. No fragment has more than 17 newlines (a
  \<^verbatim>\<open>switch\<close> with four arms in the Allman style), but the preamble and the entry point
  forced after the loop come on top of the last fragment: with \<open>loc = 3\<close> one \<^verbatim>\<open>switch\<close>
  and the forced \<^verbatim>\<open>main\<close> give 26 newlines, more than \<open>3 + 17\<close>.
\<close>

theorem size_bound_counterexample:
  "build_c big_env big_cfg = Some (Inr big_text) \<and>
   loc big_cfg + 17 < int (count_nl big_text)"
  using big_run big_text_count by (simp add: big_cfg_def)

text \<open>
  C3, amended. The text returned by \<^verbatim>\<open>build_c\<close> has at least \<open>loc\<close> newlines and at most
  \<open>max loc 2 + 23\<close>: the loop stops at most 16 newlines above \<open>max loc 2\<close> (the preamble
  has 2, a fragment of the loop between 1 and 17 on a well-formed state), and the entry
  point forced after the loop adds at most 7.
\<close>

theorem size_bounds:
  "(build_c e cfg = Some (Inr txt) \<longrightarrow>
      loc cfg \<le> int (count_nl txt) \<and> int (count_nl txt) \<le> max (loc cfg) 2 + 23) \<and>
   (REGISTRY e kind = Some gen \<and> gen st = Inr (out, st') \<and> wf_state st \<longrightarrow>
      count_nl out \<le> 17)"
proof (intro conjI impI)
  assume b: "build_c e cfg = Some (Inr txt)"
  then obtain ps where ps: "build_parts e cfg = Some (Inr ps)" "txt = concat ps"
    by (rule build_c_Inr)
  from ps(1) obtain sty r1 ps0 st0 where
    a: "assemble e (map fst (weights cfg)) (map snd (weights cfg)) (loc cfg) [PREAMBLE] 2
       (initial_state r1 sty) = Some (Inr (ps0, st0))" and
    f: "finish e (ps0, st0) = Inr ps"
    by (rule build_parts_Inr)
  have i: "(2::int) = int (count_nl (concat [PREAMBLE]))" "(2::int) \<le> max (loc cfg) 2 + 16"
    by (simp_all add: count_nl_PREAMBLE)
  from assemble_lines[OF a wf_initial i]
  have wf: "wf_state st0" and lo: "loc cfg \<le> int (count_nl (concat ps0))" and
    hi: "int (count_nl (concat ps0)) \<le> max (loc cfg) 2 + 16"
    by simp_all
  have r: "loc cfg \<le> int (count_nl txt) \<and> int (count_nl txt) \<le> max (loc cfg) 2 + 23"
  proof (cases "main_written st0")
    case True
    with finish_Inr[OF f] have "ps = ps0" by auto
    with ps(2) lo hi show ?thesis by simp
  next
    case False
    with finish_Inr[OF f] obtain m st1 where
      g: "gen_main e st0 = Inr (m, st1)" and p: "ps = ps0 @ [m]" by auto
    from gen_main_wf[OF g wf False] have "count_nl m \<le> 7" by simp
    with p ps(2) lo hi show ?thesis by simp
  qed
  from r show "loc cfg \<le> int (count_nl txt)" by simp
  from r show "int (count_nl txt) \<le> max (loc cfg) 2 + 23" by simp
next
  assume a: "REGISTRY e kind = Some gen \<and> gen st = Inr (out, st') \<and> wf_state st"
  then have reg: "REGISTRY e kind = Some gen" and g: "gen st = Inr (out, st')"
    and wf: "wf_state st" by simp_all
  note rw = registry_wf[OF reg g wf]
  show "count_nl out \<le> 17"
  proof (cases "kind = ''main''")
    case True
    with rw show ?thesis by (auto split: if_splits)
  next
    case False
    with rw show ?thesis by (auto simp: fragment_ok_def)
  qed
qed

text \<open>The run above attains the amended bound: \<open>26 = max 3 2 + 23\<close>.\<close>

theorem size_bounds_witness:
  "build_c big_env big_cfg = Some (Inr big_text) \<and>
   loc big_cfg \<le> int (count_nl big_text) \<and>
   int (count_nl big_text) \<le> max (loc big_cfg) 2 + 23 \<and>
   int (count_nl big_text) = max (loc big_cfg) 2 + 23"
proof -
  from size_bounds[of big_env big_cfg big_text] big_run
  have "loc big_cfg \<le> int (count_nl big_text) \<and>
        int (count_nl big_text) \<le> max (loc big_cfg) 2 + 23"
    by blast
  moreover have "int (count_nl big_text) = max (loc big_cfg) 2 + 23"
    by (simp add: big_text_count big_cfg_def)
  ultimately show ?thesis using big_run by blast
qed

section \<open>Exactly one entry point\<close>

text \<open>
  C4. The parts that \<^verbatim>\<open>build_c\<close> joins hold exactly one entry-point fragment, however
  often the entry-point unit is drawn: with the flag set the unit returns the empty
  fragment and leaves the state alone, with the flag unset it returns an entry-point
  fragment and sets the flag, no other unit ever returns a fragment that starts with the
  header of \<^verbatim>\<open>main\<close>, and a run that leaves the loop with the flag unset appends one
  entry-point fragment.
\<close>

theorem exactly_one_entry_point:
  "(build_c e cfg = Some (Inr txt) \<longrightarrow>
      (\<exists>ps. build_parts e cfg = Some (Inr ps) \<and> txt = concat ps \<and>
            length (filter is_main_fragment ps) = 1)) \<and>
   (main_written st \<longrightarrow> gen_main e st = Inr ([], st)) \<and>
   (\<not> main_written st \<and> gen_main e st = Inr (out, st') \<longrightarrow>
      is_main_fragment out \<and> main_written st')"
proof (intro conjI impI)
  assume "build_c e cfg = Some (Inr txt)"
  then obtain ps where ps: "build_parts e cfg = Some (Inr ps)" "txt = concat ps"
    by (rule build_c_Inr)
  from ps(1) obtain sty r1 ps0 st0 where
    a: "assemble e (map fst (weights cfg)) (map snd (weights cfg)) (loc cfg) [PREAMBLE] 2
       (initial_state r1 sty) = Some (Inr (ps0, st0))" and
    f: "finish e (ps0, st0) = Inr ps"
    by (rule build_parts_Inr)
  have "length (filter is_main_fragment [PREAMBLE])
          = (if main_written (initial_state r1 sty) then 1 else 0)"
    by (simp add: PREAMBLE_not_main initial_state_def)
  from assemble_main_count[OF a wf_initial this]
  have wf: "wf_state st0" and
    c: "length (filter is_main_fragment ps0) = (if main_written st0 then 1 else 0)"
    by simp_all
  have "length (filter is_main_fragment ps) = 1"
  proof (cases "main_written st0")
    case True
    with finish_Inr[OF f] c show ?thesis by auto
  next
    case False
    with finish_Inr[OF f] obtain m st1 where
      g: "gen_main e st0 = Inr (m, st1)" and p: "ps = ps0 @ [m]" by auto
    from gen_main_wf[OF g wf False] have "is_main_fragment m" by simp
    with p c False show ?thesis by simp
  qed
  with ps show "\<exists>ps. build_parts e cfg = Some (Inr ps) \<and> txt = concat ps \<and>
            length (filter is_main_fragment ps) = 1"
    by blast
next
  assume "main_written st"
  then show "gen_main e st = Inr ([], st)" by (rule gen_main_written)
next
  assume a: "\<not> main_written st \<and> gen_main e st = Inr (out, st')"
  then have g: "gen_main e st = Inr (out, st')" and n: "\<not> main_written st" by simp_all
  from g n have r: "is_main_fragment out \<and> main_written st'"
    by (rule gen_main_shape) (simp add: is_main_fragment_def)
  from r show "is_main_fragment out" by simp
  from r show "main_written st'" by simp
qed

text \<open>A run that draws the entry-point unit twice and then two comments: the second
  draw adds nothing, and nothing is forced after the loop.\<close>

theorem exactly_one_entry_point_witness:
  "build_c twice_env twice_cfg
     = Some (Inr (''/* Auto-generated C code */\<newline>\<newline>''
          @ ''int main(void) {\<newline>    '' @ HELLO @ ''    return 0;\<newline>}\<newline>''
          @ ''// TODO: aaa\<newline>''
          @ ''// TODO: aaa\<newline>'')) \<and>
   (\<exists>ps. build_parts twice_env twice_cfg = Some (Inr ps) \<and>
      ''/* Auto-generated C code */\<newline>\<newline>''
          @ ''int main(void) {\<newline>    '' @ HELLO @ ''    return 0;\<newline>}\<newline>''
          @ ''// TODO: aaa\<newline>''
          @ ''// TODO: aaa\<newline>'' = concat ps \<and>
      length (filter is_main_fragment ps) = 1)"
proof -
  have b: "build_c twice_env twice_cfg
     = Some (Inr (''/* Auto-generated C code */\<newline>\<newline>''
          @ ''int main(void) {\<newline>    '' @ HELLO @ ''    return 0;\<newline>}\<newline>''
          @ ''// TODO: aaa\<newline>''
          @ ''// TODO: aaa\<newline>''))"
    by (simp add: build_eval unit_eval rnd_eval text_eval twice_env_def twice_cfg_def)
  from exactly_one_entry_point[of twice_env twice_cfg] b show ?thesis by blast
qed

section \<open>Weights are not validated\<close>




section \<open>The header unit\<close>

lemma rnd_choice_total: "xs \<noteq> [] \<Longrightarrow> \<exists>x r'. rnd_choice r xs = Inr (x, r')"
  by (simp add: rnd_choice_def case_prod_beta)

lemma gen_include_total: "\<exists>out st'. gen_include st = Inr (out, st')"
proof -
  let ?avail = "if set HDRS \<subseteq> set (headers st) then HDRS
                else filter (\<lambda>h. h \<notin> set (headers st)) HDRS"
  have "?avail \<noteq> []" by (auto simp: filter_empty_conv HDRS_def)
  from rnd_choice_total[OF this, of "rng st"] obtain h r' where
    "rnd_choice (rng st) ?avail = Inr (h, r')" by blast
  then show ?thesis by (simp add: gen_include_unfold)
qed

text \<open>
  C6. The header unit always succeeds and emits one header \<open>h\<close> of the five-element
  catalog. If some header of the catalog is not yet in \<open>headers\<close>, then \<open>h\<close> is not in
  \<open>headers\<close> and is added to it; only when every header of the catalog is in \<open>headers\<close> is
  the set cleared, and then it holds exactly the header drawn from the full catalog. In
  both cases the chosen header is in \<open>headers\<close> afterwards.
\<close>

theorem gen_include_fresh_until_exhausted:
  "\<exists>h out st'. gen_include st = Inr (out, st') \<and> h \<in> set HDRS \<and>
     out = ''#include '' @ h @ ''\<newline>'' \<and> h \<in> set (headers st') \<and>
     (if set HDRS \<subseteq> set (headers st) then headers st' = [h]
      else h \<notin> set (headers st) \<and> headers st' = headers st @ [h])"
proof -
  from gen_include_total obtain out st' where g: "gen_include st = Inr (out, st')" by blast
  from gen_include_shape[OF g] obtain h r' where
    h: "h \<in> set HDRS" "out = ''#include '' @ h @ ''\<newline>''" and
    s: "if set HDRS \<subseteq> set (headers st) then st' = st\<lparr>rng := r', headers := [h]\<rparr>
        else h \<notin> set (headers st) \<and> st' = st\<lparr>rng := r', headers := headers st @ [h]\<rparr>"
    by blast
  from s have "h \<in> set (headers st')" by (auto split: if_splits)
  moreover from s have "if set HDRS \<subseteq> set (headers st) then headers st' = [h]
      else h \<notin> set (headers st) \<and> headers st' = headers st @ [h]"
    by (auto split: if_splits)
  ultimately show ?thesis using g h by blast
qed

text \<open>A state in which the whole catalog has been used: the next header resets the set.\<close>

theorem gen_include_fresh_until_exhausted_witness:
  "\<exists>h out st'. gen_include (initial_state \<lparr>src = stream_of [3], pos = 0\<rparr> ''kr'' \<lparr>headers := HDRS\<rparr>)
       = Inr (out, st') \<and> h \<in> set HDRS \<and> out = ''#include '' @ h @ ''\<newline>'' \<and>
     headers st' = [h]"
  using gen_include_fresh_until_exhausted
    [of "initial_state \<lparr>src = stream_of [3], pos = 0\<rparr> ''kr'' \<lparr>headers := HDRS\<rparr>"]
  by (auto simp: initial_state_def)

section \<open>The function-definition unit\<close>

text \<open>
  C7 as stated fails: the literal that a non-void body returns is a literal of a base type
  drawn afresh (\<^verbatim>\<open>random_value(rng, rng.choice(BASE_CTYPES))\<close>), not of the signature's
  return type. Here the stored signature returns \<^verbatim>\<open>char\<close> and the body returns \<^verbatim>\<open>42L\<close>.
\<close>

theorem func_def_literal_counterexample:
  "gen_func_def env0
     (initial_state \<lparr>src = stream_of [0, 1, 42], pos = 0\<rparr> ''kr''
        \<lparr>funcs := [(''char'', ''abcdef'', ''void'')]\<rparr>)
     = Inr (''char abcdef(void) {\<newline>    return 42L;\<newline>}\<newline>\<newline>'',
            initial_state \<lparr>src = stream_of [0, 1, 42], pos = 3\<rparr> ''kr''
              \<lparr>funcs := [(''char'', ''abcdef'', ''void'')]\<rparr>) \<and>
   \<not> literal_for ''char'' ''42L''"
  by (simp add: unit_eval rnd_eval text_eval env0_def literal_for_def)

text \<open>
  C7, amended. With no stored signature the unit returns the empty fragment and leaves
  the state alone. Otherwise it selects a stored signature and emits its header, the
  opening brace placed by the active style, one body line indented by the style's indent
  and the closing brace; the body is the comment when the return type is \<^verbatim>\<open>void\<close>, and
  otherwise returns a literal of some base type, drawn independently of the return type.
\<close>

theorem func_def_body:
  "(funcs st = [] \<longrightarrow> gen_func_def e st = Inr ([], st)) \<and>
   (funcs st \<noteq> [] \<and> gen_func_def e st = Inr (out, st') \<longrightarrow>
      (\<exists>ret name ps ent body.
         (ret, name, ps) \<in> set (funcs st) \<and> STYLE_TABLE (style st) = Inr ent \<and>
         out = (ret @ '' '' @ name @ ''('' @ ps @ '')'')
                 @ (if brace_same ent then '' {\<newline>'' else ''\<newline>{\<newline>'') @ body @ ''}\<newline>\<newline>'' \<and>
         (if ret = ''void'' then body = indent ent @ ''// function body\<newline>''
          else (\<exists>t \<in> set BASE_CTYPES. \<exists>v. literal_for t v \<and>
                  body = indent ent @ ''return '' @ v @ '';\<newline>''))))"
proof (intro conjI impI)
  assume "funcs st = []"
  then show "gen_func_def e st = Inr ([], st)" by (rule gen_func_def_empty)
next
  assume a: "funcs st \<noteq> [] \<and> gen_func_def e st = Inr (out, st')"
  then have g: "gen_func_def e st = Inr (out, st')" and ne: "funcs st \<noteq> []" by simp_all
  from g ne obtain ret name ps ent body r0 r' where
    m: "(ret, name, ps) \<in> set (funcs st)" and t: "STYLE_TABLE (style st) = Inr ent" and
    b: "func_body r0 (indent ent) ret = Inr (body, r')" and
    o: "out = (ret @ '' '' @ name @ ''('' @ ps @ '')'') @ open_brace ent @ body @ ''}\<newline>\<newline>''"
    by (rule gen_func_def_shape)
  from o have o': "out = (ret @ '' '' @ name @ ''('' @ ps @ '')'')
                 @ (if brace_same ent then '' {\<newline>'' else ''\<newline>{\<newline>'') @ body @ ''}\<newline>\<newline>''"
    by (simp add: open_brace_def)
  from m t o' func_body_Inr[OF b]
  show "\<exists>ret name ps ent body.
         (ret, name, ps) \<in> set (funcs st) \<and> STYLE_TABLE (style st) = Inr ent \<and>
         out = (ret @ '' '' @ name @ ''('' @ ps @ '')'')
                 @ (if brace_same ent then '' {\<newline>'' else ''\<newline>{\<newline>'') @ body @ ''}\<newline>\<newline>'' \<and>
         (if ret = ''void'' then body = indent ent @ ''// function body\<newline>''
          else (\<exists>t \<in> set BASE_CTYPES. \<exists>v. literal_for t v \<and>
                  body = indent ent @ ''return '' @ v @ '';\<newline>''))"
    by blast
qed

text \<open>On an initial state, which has no signature, the unit contributes nothing; with one
  stored signature it defines that function.\<close>

theorem func_def_body_witness:
  "funcs (initial_state \<lparr>src = stream_of [], pos = 0\<rparr> ''allman'') = [] \<and>
   gen_func_def env0 (initial_state \<lparr>src = stream_of [], pos = 0\<rparr> ''allman'')
     = Inr ([], initial_state \<lparr>src = stream_of [], pos = 0\<rparr> ''allman'') \<and>
   gen_func_def env0
     (initial_state \<lparr>src = stream_of [0, 4, 5], pos = 0\<rparr> ''allman''
        \<lparr>funcs := [(''char'', ''abcdef'', ''void'')]\<rparr>)
     = Inr (''char abcdef(void)\<newline>{\<newline>    return '' @ [CHR 0x27, CHR ''f'', CHR 0x27] @ '';\<newline>}\<newline>\<newline>'',
            initial_state \<lparr>src = stream_of [0, 4, 5], pos = 3\<rparr> ''allman''
              \<lparr>funcs := [(''char'', ''abcdef'', ''void'')]\<rparr>) \<and>
   (\<exists>ret name ps ent body.
      (ret, name, ps) \<in> set [(''char'', ''abcdef'', ''void'')] \<and>
      STYLE_TABLE ''allman'' = Inr ent \<and>
      ''char abcdef(void)\<newline>{\<newline>    return '' @ [CHR 0x27, CHR ''f'', CHR 0x27] @ '';\<newline>}\<newline>\<newline>''
        = (ret @ '' '' @ name @ ''('' @ ps @ '')'')
            @ (if brace_same ent then '' {\<newline>'' else ''\<newline>{\<newline>'') @ body @ ''}\<newline>\<newline>'' \<and>
      (if ret = ''void'' then body = indent ent @ ''// function body\<newline>''
       else (\<exists>t \<in> set BASE_CTYPES. \<exists>v. literal_for t v \<and>
               body = indent ent @ ''return '' @ v @ '';\<newline>'')))"
proof -
  let ?s0 = "initial_state \<lparr>src = stream_of [], pos = 0\<rparr> ''allman''"
  let ?s1 = "initial_state \<lparr>src = stream_of [0, 4, 5], pos = 0\<rparr> ''allman''
        \<lparr>funcs := [(''char'', ''abcdef'', ''void'')]\<rparr>"
  let ?s2 = "initial_state \<lparr>src = stream_of [0, 4, 5], pos = 3\<rparr> ''allman''
              \<lparr>funcs := [(''char'', ''abcdef'', ''void'')]\<rparr>"
  let ?out = "''char abcdef(void)\<newline>{\<newline>    return '' @ [CHR 0x27, CHR ''f'', CHR 0x27] @ '';\<newline>}\<newline>\<newline>''"
  have e: "funcs ?s0 = []" by (simp add: initial_state_def)
  have g: "gen_func_def env0 ?s1 = Inr (?out, ?s2)"
    by (simp add: unit_eval rnd_eval text_eval env0_def)
  have ne: "funcs ?s1 \<noteq> []" by (simp add: initial_state_def)
  have f: "funcs ?s1 = [(''char'', ''abcdef'', ''void'')]" "style ?s1 = ''allman''"
    by (simp_all add: initial_state_def)
  from func_def_body[of ?s0 env0] e
  have 1: "gen_func_def env0 ?s0 = Inr ([], ?s0)" by blast
  from func_def_body[of ?s1 env0 ?out ?s2] ne g
  have 2: "\<exists>ret name ps ent body.
      (ret, name, ps) \<in> set (funcs ?s1) \<and> STYLE_TABLE (style ?s1) = Inr ent \<and>
      ?out = (ret @ '' '' @ name @ ''('' @ ps @ '')'')
            @ (if brace_same ent then '' {\<newline>'' else ''\<newline>{\<newline>'') @ body @ ''}\<newline>\<newline>'' \<and>
      (if ret = ''void'' then body = indent ent @ ''// function body\<newline>''
       else (\<exists>t \<in> set BASE_CTYPES. \<exists>v. literal_for t v \<and>
               body = indent ent @ ''return '' @ v @ '';\<newline>''))"
    by blast
  from e 1 g 2[unfolded f] show ?thesis by blast
qed

section \<open>The variable-declaration unit\<close>

text \<open>
  C8 as stated fails: the initializer is \<^verbatim>\<open>random_value(rng, rng.choice(BASE_CTYPES))\<close>, a
  literal of a base type drawn afresh, not of the declared type. Here a \<^verbatim>\<open>char\<close> variable
  is initialised with a decimal.
\<close>

theorem var_decl_literal_counterexample:
  "gen_var_decl env0
     (initial_state \<lparr>src = stream_of [4, 2 ^ 52, 0, 0, 0, 0, 0, 0, 0, 2, 5730], pos = 0\<rparr> ''kr'')
     = Inr (''char aaaaaa = 57.30;\<newline>'',
            initial_state \<lparr>src = stream_of [4, 2 ^ 52, 0, 0, 0, 0, 0, 0, 0, 2, 5730], pos = 11\<rparr> ''kr'') \<and>
   \<not> literal_for ''char'' ''57.30''"
  by (simp add: unit_eval rnd_eval text_eval env0_def literal_for_def)

text \<open>
  C8, amended. \<^verbatim>\<open>random_value\<close> follows the rules for the type it is given: \<^verbatim>\<open>NULL\<close>
  for a pointer type, a quoted letter for \<^verbatim>\<open>char\<close>, an integer of \<open>[0, 100]\<close> for \<^verbatim>\<open>int\<close>
  and \<^verbatim>\<open>long\<close> (with the suffix \<^verbatim>\<open>L\<close> for \<^verbatim>\<open>long\<close>), a decimal of \<open>[0.00, 100.00]\<close> with
  two fractional digits otherwise. The variable-declaration unit emits a type (a base
  type or a known alias, possibly with \<^verbatim>\<open>*\<close>), a blank, a name of six lowercase letters,
  an optional initializer and \<^verbatim>\<open>;\<close> with a newline, and changes nothing but the random
  source. Whenever it emits an initializer, the declared type is not a pointer type and
  the initializer is \<^verbatim>\<open> = \<close> followed by such a literal of some base type, drawn
  independently of the declared type.
\<close>

theorem var_decl_initializer:
  "(random_value r t = Inr (v, r') \<longrightarrow> literal_for t v) \<and>
   (gen_var_decl e st = Inr (out, st') \<longrightarrow>
      (\<exists>ctype name init r3.
         out = ctype @ '' '' @ name @ init @ '';\<newline>'' \<and> st' = st\<lparr>rng := r3\<rparr> \<and>
         (\<exists>b \<in> set BASE_CTYPES \<union> set (typedefs st). ctype = b \<or> ctype = b @ ''*'') \<and>
         set name \<subseteq> set LETTERS \<and> length name = 6 \<and>
         (init = [] \<or>
          (\<not> endswith ctype ''*'' \<and>
           (\<exists>t \<in> set BASE_CTYPES. \<exists>v. literal_for t v \<and> init = '' = '' @ v)))))"
proof (intro conjI impI)
  assume "random_value r t = Inr (v, r')"
  then show "literal_for t v" by (rule random_value_Inr)
next
  assume "gen_var_decl e st = Inr (out, st')"
  then show "\<exists>ctype name init r3.
         out = ctype @ '' '' @ name @ init @ '';\<newline>'' \<and> st' = st\<lparr>rng := r3\<rparr> \<and>
         (\<exists>b \<in> set BASE_CTYPES \<union> set (typedefs st). ctype = b \<or> ctype = b @ ''*'') \<and>
         set name \<subseteq> set LETTERS \<and> length name = 6 \<and>
         (init = [] \<or>
          (\<not> endswith ctype ''*'' \<and>
           (\<exists>t \<in> set BASE_CTYPES. \<exists>v. literal_for t v \<and> init = '' = '' @ v)))"
    by (rule gen_var_decl_shape) blast
qed

text \<open>A \<^verbatim>\<open>long\<close> literal, and the declaration of the counterexample read by the amended
  claim: the initializer is a literal for \<^verbatim>\<open>float\<close>.\<close>

theorem var_decl_initializer_witness:
  "random_value \<lparr>src = stream_of [7], pos = 0\<rparr> ''long''
     = Inr (''7L'', \<lparr>src = stream_of [7], pos = 1\<rparr>) \<and>
   literal_for ''long'' ''7L'' \<and>
   (\<exists>ctype name init.
      ''char aaaaaa = 57.30;\<newline>'' = ctype @ '' '' @ name @ init @ '';\<newline>'' \<and>
      (\<exists>b \<in> set BASE_CTYPES \<union> set []. ctype = b \<or> ctype = b @ ''*'') \<and>
      set name \<subseteq> set LETTERS \<and> length name = 6 \<and>
      (init = [] \<or>
       (\<not> endswith ctype ''*'' \<and>
        (\<exists>t \<in> set BASE_CTYPES. \<exists>v. literal_for t v \<and> init = '' = '' @ v))))"
proof -
  let ?s = "initial_state \<lparr>src = stream_of [4, 2 ^ 52, 0, 0, 0, 0, 0, 0, 0, 2, 5730], pos = 0\<rparr> ''kr''"
  let ?s' = "initial_state \<lparr>src = stream_of [4, 2 ^ 52, 0, 0, 0, 0, 0, 0, 0, 2, 5730], pos = 11\<rparr> ''kr''"
  have rv: "random_value \<lparr>src = stream_of [7], pos = 0\<rparr> ''long''
     = Inr (''7L'', \<lparr>src = stream_of [7], pos = 1\<rparr>)"
    by (simp add: unit_eval rnd_eval text_eval)
  have g: "gen_var_decl env0 ?s = Inr (''char aaaaaa = 57.30;\<newline>'', ?s')"
    by (simp add: unit_eval rnd_eval text_eval env0_def)
  have t: "typedefs ?s = []" by (simp add: initial_state_def)
  note th = var_decl_initializer[of "\<lparr>src = stream_of [7], pos = 0\<rparr>" "''long''" "''7L''"
      "\<lparr>src = stream_of [7], pos = 1\<rparr>" env0 ?s "''char aaaaaa = 57.30;\<newline>''" ?s']
  from th rv have 1: "literal_for ''long'' ''7L''" by blast
  from th g have 2: "\<exists>ctype name init.
      ''char aaaaaa = 57.30;\<newline>'' = ctype @ '' '' @ name @ init @ '';\<newline>'' \<and>
      (\<exists>b \<in> set BASE_CTYPES \<union> set (typedefs ?s). ctype = b \<or> ctype = b @ ''*'') \<and>
      set name \<subseteq> set LETTERS \<and> length name = 6 \<and>
      (init = [] \<or>
       (\<not> endswith ctype ''*'' \<and>
        (\<exists>t \<in> set BASE_CTYPES. \<exists>v. literal_for t v \<and> init = '' = '' @ v)))"
    by blast
  from rv 1 2[unfolded t] show ?thesis by blast
qed

section \<open>Append-only sets\<close>

text \<open>
  C9. No unit invocation removes an element from \<open>typedefs\<close>, \<open>structs\<close> or \<open>funcs\<close>:
  whatever registered unit runs, each of the three sets after it includes the set before
  it; the style is unchanged, the entry-point flag is never reset, and only the header
  unit touches \<open>headers\<close> (the one field that is cleared, see
  \<open>gen_include_fresh_until_exhausted\<close>). The same holds from the start to the end of the
  whole assembly loop.
\<close>

theorem append_only_sets:
  "(REGISTRY e kind = Some gen \<and> gen st = Inr (out, st') \<longrightarrow>
      set (typedefs st) \<subseteq> set (typedefs st') \<and> set (structs st) \<subseteq> set (structs st') \<and>
      set (funcs st) \<subseteq> set (funcs st') \<and> style st' = style st \<and>
      (main_written st \<longrightarrow> main_written st') \<and>
      (kind \<noteq> ''include'' \<longrightarrow> headers st' = headers st)) \<and>
   (assemble e kinds ws target parts lines st = Some (Inr (parts2, st2)) \<longrightarrow>
      set (typedefs st) \<subseteq> set (typedefs st2) \<and> set (structs st) \<subseteq> set (structs st2) \<and>
      set (funcs st) \<subseteq> set (funcs st2) \<and> style st2 = style st \<and>
      (main_written st \<longrightarrow> main_written st2))"
proof (intro conjI impI)
  assume a: "REGISTRY e kind = Some gen \<and> gen st = Inr (out, st')"
  then have g: "grows st st'" and h: "kind \<noteq> ''include'' \<longrightarrow> headers st' = headers st"
    using registry_grows[of e kind gen st out st'] by simp_all
  from g show "set (typedefs st) \<subseteq> set (typedefs st')" by (simp add: grows_def)
  from g show "set (structs st) \<subseteq> set (structs st')" by (simp add: grows_def)
  from g show "set (funcs st) \<subseteq> set (funcs st')" by (simp add: grows_def)
  from g show "style st' = style st" by (simp add: grows_def)
  from g show "main_written st \<Longrightarrow> main_written st'" by (simp add: grows_def)
  from h show "kind \<noteq> ''include'' \<Longrightarrow> headers st' = headers st" by simp
next
  assume "assemble e kinds ws target parts lines st = Some (Inr (parts2, st2))"
  then have g: "grows st st2" by (rule assemble_grows)
  from g show "set (typedefs st) \<subseteq> set (typedefs st2)" by (simp add: grows_def)
  from g show "set (structs st) \<subseteq> set (structs st2)" by (simp add: grows_def)
  from g show "set (funcs st) \<subseteq> set (funcs st2)" by (simp add: grows_def)
  from g show "style st2 = style st" by (simp add: grows_def)
  from g show "main_written st \<Longrightarrow> main_written st2" by (simp add: grows_def)
qed

text \<open>The alias unit on a state that already holds the alias \<open>abc\<close>: the new alias is
  added and the old one stays.\<close>

theorem append_only_sets_witness:
  "REGISTRY env0 ''typedef'' = Some gen_typedef \<and>
   gen_typedef (initial_state \<lparr>src = stream_of [0, 23, 24, 25, 1], pos = 0\<rparr> ''kr''
                  \<lparr>typedefs := [''abc'']\<rparr>)
     = Inr (''typedef long xyz;\<newline>'',
            initial_state \<lparr>src = stream_of [0, 23, 24, 25, 1], pos = 5\<rparr> ''kr''
                  \<lparr>typedefs := [''abc'', ''xyz'']\<rparr>) \<and>
   set [''abc''] \<subseteq> set [''abc'', ''xyz'']"
proof -
  have r: "REGISTRY env0 ''typedef'' = Some gen_typedef"
    by (simp add: REGISTRY_def)
  have g: "gen_typedef (initial_state \<lparr>src = stream_of [0, 23, 24, 25, 1], pos = 0\<rparr> ''kr''
                  \<lparr>typedefs := [''abc'']\<rparr>)
     = Inr (''typedef long xyz;\<newline>'',
            initial_state \<lparr>src = stream_of [0, 23, 24, 25, 1], pos = 5\<rparr> ''kr''
                  \<lparr>typedefs := [''abc'', ''xyz'']\<rparr>)"
    by (simp add: unit_eval rnd_eval text_eval)
  from append_only_sets[of env0 "''typedef''" gen_typedef
      "initial_state \<lparr>src = stream_of [0, 23, 24, 25, 1], pos = 0\<rparr> ''kr'' \<lparr>typedefs := [''abc'']\<rparr>"
      "''typedef long xyz;\<newline>''"
      "initial_state \<lparr>src = stream_of [0, 23, 24, 25, 1], pos = 5\<rparr> ''kr'' \<lparr>typedefs := [''abc'', ''xyz'']\<rparr>"]
    r g
  have "set (typedefs (initial_state \<lparr>src = stream_of [0, 23, 24, 25, 1], pos = 0\<rparr> ''kr''
                  \<lparr>typedefs := [''abc'']\<rparr>))
        \<subseteq> set (typedefs (initial_state \<lparr>src = stream_of [0, 23, 24, 25, 1], pos = 5\<rparr> ''kr''
                  \<lparr>typedefs := [''abc'', ''xyz'']\<rparr>))"
    by blast
  then have "set [''abc''] \<subseteq> set [''abc'', ''xyz'']" by (simp add: initial_state_def)
  with r g show ?thesis by blast
qed

section \<open>Return types of stored signatures\<close>

lemma contains_prefix: "prefix t s \<Longrightarrow> contains t s"
  by (cases s) auto

lemma contains_append_left: "contains t s \<Longrightarrow> contains t (a @ s)"
  by (induction a) auto

lemma contains_mid: "contains t (a @ t @ b)"
  by (rule contains_append_left) (simp add: contains_prefix)

text \<open>
  C10 as stated fails: the alias unit names its alias with three to six random lowercase
  letters, so the alias can be the four letters \<^verbatim>\<open>void\<close>; \<^verbatim>\<open>choose_ctype\<close> can then
  return it, a signature with return type \<^verbatim>\<open>void\<close> is stored, and the function
  definition takes the void branch. The run below does exactly this: its text has a
  function definition whose body is the comment and no \<^verbatim>\<open>return\<close>.
\<close>

theorem void_return_counterexample:
  "build_c (env0\<lparr>twister := (\<lambda>sd. stream_of void_stream)\<rparr>) void_cfg
     = Some (Inr (''/* Auto-generated C code */\<newline>\<newline>''
          @ ''typedef int void;\<newline>''
          @ ''void aaaaaa(void);\<newline>''
          @ ''void aaaaaa(void) {\<newline>    // function body\<newline>}\<newline>\<newline>''
          @ ''int main(void) {\<newline>    '' @ HELLO @ ''    return 0;\<newline>}\<newline>''))"
  by (simp add: build_eval unit_eval rnd_eval text_eval void_stream_def void_cfg_def)

text \<open>
  C10, amended. Every signature the function-declaration unit stores has a return type
  drawn by \<^verbatim>\<open>choose_ctype\<close> from the base types and the current aliases, optionally with
  the pointer suffix; it is the string \<^verbatim>\<open>void\<close> only if an alias named \<^verbatim>\<open>void\<close> is in
  \<open>typedefs\<close>. A non-empty function-definition fragment contains a \<^verbatim>\<open>return\<close> statement
  whenever no stored signature has the return type \<^verbatim>\<open>void\<close>.
\<close>

theorem stored_return_types:
  "(gen_func_decl e st = Inr (out, st') \<longrightarrow>
      (\<exists>ret name ps.
         funcs st' = set_add (ret, name, ps) (funcs st) \<and>
         (\<exists>b \<in> set BASE_CTYPES \<union> set (typedefs st). ret = b \<or> ret = b @ ''*'') \<and>
         (''void'' \<notin> set (typedefs st) \<longrightarrow> ret \<noteq> ''void''))) \<and>
   (gen_func_def e st = Inr (out, st') \<and> out \<noteq> [] \<and>
    (\<forall>sg \<in> set (funcs st). fst sg \<noteq> ''void'') \<longrightarrow> contains ''return '' out)"
proof (intro conjI impI)
  assume g: "gen_func_decl e st = Inr (out, st')"
  from g obtain ret name ps r' where
    s: "st' = st\<lparr>rng := r', funcs := set_add (ret, name, ps) (funcs st)\<rparr>" and
    r: "\<exists>b \<in> set BASE_CTYPES \<union> set (typedefs st). ret = b \<or> ret = b @ ''*''"
    by (rule gen_func_decl_shape)
  have "ret \<noteq> ''void''" if nv: "''void'' \<notin> set (typedefs st)"
  proof -
    from r obtain b where b: "b \<in> set BASE_CTYPES \<union> set (typedefs st)" "ret = b \<or> ret = b @ ''*''"
      by blast
    from b(1) nv have "b \<noteq> ''void''" by (auto simp: BASE_CTYPES_def)
    moreover have "b @ ''*'' \<noteq> ''void''"
    proof
      assume "b @ ''*'' = ''void''"
      then have "last (b @ ''*'') = last ''void''" by simp
      then show False by simp
    qed
    ultimately show ?thesis using b(2) by auto
  qed
  with s r show "\<exists>ret name ps.
         funcs st' = set_add (ret, name, ps) (funcs st) \<and>
         (\<exists>b \<in> set BASE_CTYPES \<union> set (typedefs st). ret = b \<or> ret = b @ ''*'') \<and>
         (''void'' \<notin> set (typedefs st) \<longrightarrow> ret \<noteq> ''void'')"
    by auto
next
  assume a: "gen_func_def e st = Inr (out, st') \<and> out \<noteq> [] \<and>
    (\<forall>sg \<in> set (funcs st). fst sg \<noteq> ''void'')"
  then have g: "gen_func_def e st = Inr (out, st')" and ne: "out \<noteq> []" and
    nv: "\<forall>sg \<in> set (funcs st). fst sg \<noteq> ''void''" by simp_all
  from g ne have fne: "funcs st \<noteq> []" by (auto simp: gen_func_def_empty)
  from g fne obtain ret name ps ent body r0 r' where
    m: "(ret, name, ps) \<in> set (funcs st)" and
    b: "func_body r0 (indent ent) ret = Inr (body, r')" and
    o: "out = (ret @ '' '' @ name @ ''('' @ ps @ '')'') @ open_brace ent @ body @ ''}\<newline>\<newline>''"
    by (rule gen_func_def_shape)
  from m nv have "ret \<noteq> ''void''" by auto
  with func_body_Inr[OF b] obtain v where "body = indent ent @ ''return '' @ v @ '';\<newline>''"
    by auto
  with o have "out = ((ret @ '' '' @ name @ ''('' @ ps @ '')'') @ open_brace ent @ indent ent)
                 @ ''return '' @ (v @ '';\<newline>'' @ ''}\<newline>\<newline>'')"
    by simp
  then show "contains ''return '' out" by (simp only: contains_mid)
qed

text \<open>A declaration on an alias-free state stores a non-void return type, and the
  definition that follows returns a value.\<close>

theorem stored_return_types_witness:
  "gen_func_decl env0
     (initial_state \<lparr>src = stream_of [0, 2 ^ 52, 0, 0, 0, 0, 0, 0, 0], pos = 0\<rparr> ''kr'')
     = Inr (''int aaaaaa(void);\<newline>'',
            initial_state \<lparr>src = stream_of [0, 2 ^ 52, 0, 0, 0, 0, 0, 0, 0], pos = 9\<rparr> ''kr''
              \<lparr>funcs := [(''int'', ''aaaaaa'', ''void'')]\<rparr>) \<and>
   (\<exists>ret name ps. [(''int'', ''aaaaaa'', ''void'')] = set_add (ret, name, ps) [] \<and>
      ret \<noteq> ''void'') \<and>
   gen_func_def env0
     (initial_state \<lparr>src = stream_of [0, 0, 7], pos = 0\<rparr> ''kr''
        \<lparr>funcs := [(''int'', ''aaaaaa'', ''void'')]\<rparr>)
     = Inr (''int aaaaaa(void) {\<newline>    return 7;\<newline>}\<newline>\<newline>'',
            initial_state \<lparr>src = stream_of [0, 0, 7], pos = 3\<rparr> ''kr''
              \<lparr>funcs := [(''int'', ''aaaaaa'', ''void'')]\<rparr>) \<and>
   contains ''return '' ''int aaaaaa(void) {\<newline>    return 7;\<newline>}\<newline>\<newline>''"
proof -
  let ?a = "initial_state \<lparr>src = stream_of [0, 2 ^ 52, 0, 0, 0, 0, 0, 0, 0], pos = 0\<rparr> ''kr''"
  let ?a' = "initial_state \<lparr>src = stream_of [0, 2 ^ 52, 0, 0, 0, 0, 0, 0, 0], pos = 9\<rparr> ''kr''
              \<lparr>funcs := [(''int'', ''aaaaaa'', ''void'')]\<rparr>"
  let ?b = "initial_state \<lparr>src = stream_of [0, 0, 7], pos = 0\<rparr> ''kr''
        \<lparr>funcs := [(''int'', ''aaaaaa'', ''void'')]\<rparr>"
  let ?b' = "initial_state \<lparr>src = stream_of [0, 0, 7], pos = 3\<rparr> ''kr''
              \<lparr>funcs := [(''int'', ''aaaaaa'', ''void'')]\<rparr>"
  let ?t = "''int aaaaaa(void) {\<newline>    return 7;\<newline>}\<newline>\<newline>''"
  have d: "gen_func_decl env0 ?a = Inr (''int aaaaaa(void);\<newline>'', ?a')"
    by (simp add: unit_eval rnd_eval text_eval env0_def)
  have f: "gen_func_def env0 ?b = Inr (?t, ?b')"
    by (simp add: unit_eval rnd_eval text_eval env0_def)
  have i: "typedefs ?a = []" "funcs ?a = []" "funcs ?a' = [(''int'', ''aaaaaa'', ''void'')]"
    "funcs ?b = [(''int'', ''aaaaaa'', ''void'')]"
    by (simp_all add: initial_state_def)
  from stored_return_types[of env0 ?a "''int aaaaaa(void);\<newline>''" ?a'] d
  have "\<exists>ret name ps. funcs ?a' = set_add (ret, name, ps) (funcs ?a) \<and>
          (''void'' \<notin> set (typedefs ?a) \<longrightarrow> ret \<noteq> ''void'')"
    by blast
  then have 1: "\<exists>ret name ps. [(''int'', ''aaaaaa'', ''void'')] = set_add (ret, name, ps) [] \<and>
      ret \<noteq> ''void''"
    unfolding i by simp
  have nv: "\<forall>sg \<in> set (funcs ?b). fst sg \<noteq> ''void''" unfolding i by simp
  have ne: "?t \<noteq> []" by simp
  from stored_return_types[of env0 ?b ?t ?b'] f nv ne
  have 2: "contains ''return '' ?t" by blast
  from d 1 f 2 show ?thesis by blast
qed

end
